theory Spec2Isabelle
  imports Main "HOL-Library.AList"
begin

section \<open>Python values\<close>

text \<open>
  A Python \<^verbatim>\<open>str\<close> is a sequence of Unicode code points, so it is a list of naturals
  here; \<open>str\<close> turns an ASCII literal into one. A code point of a real \<^verbatim>\<open>str\<close> is
  below \<open>0x110000\<close>, and the surrogate range \<open>0xD800..0xDFFF\<close> is allowed in it.
\<close>

type_synonym pystr = "nat list"

definition str :: "string \<Rightarrow> pystr" where
  "str s = map of_char s"

text \<open>
  The values that reach the program: the arguments of \<^verbatim>\<open>add_item\<close> and
  \<^verbatim>\<open>remove_item\<close>, which the code inspects with \<^verbatim>\<open>isinstance\<close>, and whatever
  \<^verbatim>\<open>json.load\<close> returns. A float is kept as the text it was read from: its
  arithmetic is not part of this development.
\<close>

datatype pyval =
    PNone
  | PBool bool
  | PInt int
  | PFloat pystr
  | PStr pystr
  | PList "pyval list"
  | PDict "(pystr \<times> pyval) list"

text \<open>\<^verbatim>\<open>isinstance(v, str)\<close>, with the string it holds.\<close>

fun as_str :: "pyval \<Rightarrow> pystr option" where
  "as_str (PStr s) = Some s"
| "as_str _ = None"

text \<open>
  \<^verbatim>\<open>isinstance(v, int)\<close>, with the integer it counts as: \<^verbatim>\<open>bool\<close> is a subclass of
  \<^verbatim>\<open>int\<close>, \<^verbatim>\<open>True\<close> is 1 and \<^verbatim>\<open>False\<close> is 0.
\<close>

fun as_int :: "pyval \<Rightarrow> int option" where
  "as_int (PInt n) = Some n"
| "as_int (PBool b) = Some (if b then 1 else 0)"
| "as_int _ = None"

section \<open>The store\<close>

text \<open>
  \<^verbatim>\<open>self.stock_data: Dict[str, int]\<close> is an association list in insertion order, as a
  Python dict iterates; a dict has each key once (\<open>dict_ok\<close>). Assignment to a key
  is \<^const>\<open>AList.update\<close> (in place, or appended when the key is new) and \<^verbatim>\<open>del\<close> is
  \<^const>\<open>AList.delete\<close>.
\<close>

type_synonym stock = "(pystr \<times> int) list"

definition dict_ok :: "('k \<times> 'v) list \<Rightarrow> bool" where
  "dict_ok d = distinct (map fst d)"

definition dict_get :: "('k \<times> 'v) list \<Rightarrow> 'k \<Rightarrow> 'v \<Rightarrow> 'v" where
  "dict_get d k dflt = (case map_of d k of None \<Rightarrow> dflt | Some v \<Rightarrow> v)"

text \<open>
  What the process can do to its surroundings: raise, write a record to the log
  configured by \<^verbatim>\<open>logging.basicConfig\<close> (level \<^verbatim>\<open>INFO\<close>, so the three levels used are
  all kept), and read or write files.
\<close>

datatype oserror = FileNotFoundError | PermissionError | IsADirectoryError

text \<open>
  The exceptions that the calls of \<^verbatim>\<open>open\<close>, \<^verbatim>\<open>json.dump\<close> and \<^verbatim>\<open>json.load\<close> raise here.
  \<open>ValueError\<close> stands for a \<^verbatim>\<open>ValueError\<close> of no subclass (a path with a NUL character,
  an integer with more digits than the interpreter converts), \<open>UnicodeEncodeError\<close>
  for that of a path that has no encoding. An \<^verbatim>\<open>except OSError\<close> clause catches the first
  constructor only, an \<^verbatim>\<open>except json.JSONDecodeError\<close> clause the second only.
\<close>

datatype exn =
    OSError oserror
  | JSONDecodeError
  | UnicodeDecodeError
  | UnicodeEncodeError
  | ValueError
  | RecursionError

datatype level = INFO | WARNING | ERROR

datatype logarg = Val pyval | Exc oserror

type_synonym log_record = "level \<times> string \<times> logarg list"

text \<open>
  A path of the file system holds nothing, or a file that cannot be opened (\<^verbatim>\<open>open\<close>
  raises the given \<^verbatim>\<open>OSError\<close>, for reading and for writing: no permission, a
  directory in its place, a missing parent directory), or a file whose bytes are not
  UTF-8, or a file with the text its bytes decode to.
\<close>

datatype node = Absent | Blocked oserror | Undecodable | Text pystr

text \<open>
  Two settings of the interpreter decide what the codec does on large data.
  \<open>int_max_str_digits\<close> is \<^verbatim>\<open>sys.get_int_max_str_digits()\<close>: 0 for no limit, otherwise the
  greatest number of digits in a conversion between \<^verbatim>\<open>int\<close> and \<^verbatim>\<open>str\<close> (4300 unless it
  was changed, and never between 1 and 639). \<open>json_depth\<close> is the number of arrays and
  objects inside one another that the decoder can enter before the recursion limit is
  reached, where \<^verbatim>\<open>load_data\<close> calls it (about 990 in \<^verbatim>\<open>main\<close> with the recursion limit
  of 1000).
\<close>

record interpreter =
  int_max_str_digits :: nat
  json_depth :: nat

text \<open>
  An \<^verbatim>\<open>Inventory\<close> object (\<open>stock_data\<close>, \<open>file_path\<close>) together with the log, the file
  system and the interpreter of the process it lives in. The type of \<open>stock_data\<close> is
  a parameter: the operations on the store work on a \<^typ>\<open>stock\<close>, as the annotation
  says, and \<^verbatim>\<open>load_data\<close> assigns whatever value the file decodes to.
\<close>

record 'd inventory =
  stock_data :: 'd
  file_path :: pystr
  log :: "log_record list"
  files :: "pystr \<Rightarrow> node"
  interp :: interpreter

definition logging :: "level \<Rightarrow> string \<Rightarrow> logarg list \<Rightarrow> 'd inventory \<Rightarrow> 'd inventory" where
  "logging lv msg args self = self\<lparr>log := log self @ [(lv, msg, args)]\<rparr>"

definition add_item :: "pyval \<Rightarrow> pyval \<Rightarrow> stock inventory \<Rightarrow> stock inventory" where
  "add_item item qty self =
     (case (as_str item, as_int qty) of
        (Some name, Some n) \<Rightarrow>
          if n < 0 then
            logging WARNING ''Cannot add negative quantity: %d'' [Val qty] self
          else
            logging INFO ''Added %d of %s'' [Val qty, Val item]
              (self\<lparr>stock_data :=
                 AList.update name (dict_get (stock_data self) name 0 + n) (stock_data self)\<rparr>)
      | _ \<Rightarrow> logging WARNING ''Invalid item name or quantity type.'' [] self)"

definition remove_item :: "pyval \<Rightarrow> pyval \<Rightarrow> stock inventory \<Rightarrow> stock inventory" where
  "remove_item item qty self =
     (case (as_str item, as_int qty) of
        (Some name, Some n) \<Rightarrow>
          (case map_of (stock_data self) name of
             None \<Rightarrow>
               logging WARNING ''Tried to remove non-existent item: %s'' [Val item] self
           | Some stored \<Rightarrow>
               if n < 0 then
                 logging WARNING ''Cannot remove negative quantity: %d'' [Val qty] self
               else if stored - n \<le> 0 then
                 logging INFO ''Removed %s completely from stock.'' [Val item]
                   (self\<lparr>stock_data :=
                      AList.delete name (AList.update name (stored - n) (stock_data self))\<rparr>)
               else
                 logging INFO ''Removed %d of %s'' [Val qty, Val item]
                   (self\<lparr>stock_data := AList.update name (stored - n) (stock_data self)\<rparr>))
      | _ \<Rightarrow> logging WARNING ''Invalid item name or quantity type.'' [] self)"

definition get_qty :: "pystr \<Rightarrow> stock inventory \<Rightarrow> int" where
  "get_qty item self = dict_get (stock_data self) item 0"

definition check_low_items :: "int \<Rightarrow> stock inventory \<Rightarrow> pystr list" where
  "check_low_items threshold self =
     [item. (item, qty) \<leftarrow> stock_data self, qty < threshold]"

text \<open>The call without an argument: \<^verbatim>\<open>threshold: int = 5\<close>.\<close>

definition check_low_items_default :: "stock inventory \<Rightarrow> pystr list" where
  "check_low_items_default self = check_low_items 5 self"

section \<open>The JSON codec\<close>

text \<open>
  \<^verbatim>\<open>save_data\<close> and \<^verbatim>\<open>load_data\<close> go through \<^verbatim>\<open>json.dump(..., indent=4)\<close> and
  \<^verbatim>\<open>json.load\<close> of the standard library. Both are written out here on code points,
  following CPython's \<^verbatim>\<open>json.encoder\<close> and \<^verbatim>\<open>_json.c\<close>: the text that is written and the
  value that is read back are computed, not assumed, and so are the exceptions that
  the two limits of the interpreter lead to.
\<close>

subsection \<open>Encoding\<close>

text \<open>
  \<^verbatim>\<open>ensure_ascii\<close> is on by default: a key is written between double quotes, with
  \<^verbatim>\<open>"\<close>, \<^verbatim>\<open>\\<close> and the control characters that have a short escape written as such,
  printable ASCII as it is, any other code point of the basic plane as \<^verbatim>\<open>\uXXXX\<close> in
  lower-case hexadecimal, and a code point above it as the two escapes of its
  surrogate pair.
\<close>

definition hex_digit :: "nat \<Rightarrow> nat" where
  "hex_digit d = (if d < 10 then 48 + d else 87 + d)"

definition u_escape :: "nat \<Rightarrow> pystr" where
  "u_escape n =
     [92, 117, hex_digit (n div 4096 mod 16), hex_digit (n div 256 mod 16),
      hex_digit (n div 16 mod 16), hex_digit (n mod 16)]"

definition encode_char :: "nat \<Rightarrow> pystr" where
  "encode_char c =
     (if c = 34 then [92, 34]
      else if c = 92 then [92, 92]
      else if c = 10 then [92, 110]
      else if c = 13 then [92, 114]
      else if c = 9 then [92, 116]
      else if c = 8 then [92, 98]
      else if c = 12 then [92, 102]
      else if 32 \<le> c \<and> c \<le> 126 then [c]
      else if c < 0x10000 then u_escape c
      else u_escape (0xD800 + (c - 0x10000) div 1024 mod 1024)
         @ u_escape (0xDC00 + (c - 0x10000) mod 1024))"

definition encode_basestring_ascii :: "pystr \<Rightarrow> pystr" where
  "encode_basestring_ascii s = [34] @ concat (map encode_char s) @ [34]"

text \<open>An \<^verbatim>\<open>int\<close> is written in decimal, as \<^verbatim>\<open>int.__repr__\<close> does.\<close>

fun digits :: "nat \<Rightarrow> pystr" where
  "digits n = (if n < 10 then [48 + n] else digits (n div 10) @ [48 + n mod 10])"

declare digits.simps [simp del]

definition int_repr :: "int \<Rightarrow> pystr" where
  "int_repr i = (if i < 0 then 45 # digits (nat (- i)) else digits (nat i))"

text \<open>
  The conversion of an \<^verbatim>\<open>int\<close> to a \<^verbatim>\<open>str\<close>, and of a \<^verbatim>\<open>str\<close> without leading zeros to an
  \<^verbatim>\<open>int\<close>, raises \<^verbatim>\<open>ValueError\<close> when the number has more digits than the limit; the sign
  does not count.
\<close>

definition digits_ok :: "nat \<Rightarrow> int \<Rightarrow> bool" where
  "digits_ok lim v = (lim = 0 \<or> length (digits (nat \<bar>v\<bar>)) \<le> lim)"

text \<open>
  With \<^verbatim>\<open>indent=4\<close> the separators are \<^verbatim>\<open>","\<close> and \<^verbatim>\<open>": "\<close>, every member starts a line
  indented by four spaces, and the empty dict is \<^verbatim>\<open>{}\<close>.
\<close>

definition newline_indent :: pystr where
  "newline_indent = 10 # replicate 4 32"

definition encode_member :: "pystr \<times> int \<Rightarrow> pystr" where
  "encode_member kv = encode_basestring_ascii (fst kv) @ [58, 32] @ int_repr (snd kv)"

fun encode_members :: "stock \<Rightarrow> pystr" where
  "encode_members [] = []"
| "encode_members [kv] = encode_member kv"
| "encode_members (kv # rest) = encode_member kv @ 44 # newline_indent @ encode_members rest"

definition json_dumps :: "stock \<Rightarrow> pystr" where
  "json_dumps d =
     (if d = [] then [123, 125]
      else 123 # newline_indent @ encode_members d @ [10, 125])"

text \<open>
  \<^verbatim>\<open>json.dump\<close> writes the chunks of the encoder to the file one after the other. The
  chunk of a quantity is its decimal text; when that conversion raises, the key and
  the \<^verbatim>\<open>": "\<close> before it have been written already and nothing after them is.
  \<open>write_members\<close> gives the text that reaches the file and the exception, if any.
\<close>

fun write_members :: "nat \<Rightarrow> bool \<Rightarrow> stock \<Rightarrow> pystr \<times> exn option" where
  "write_members lim first [] = ([], None)"
| "write_members lim first ((k, v) # rest) =
     (let head = (if first then [] else 44 # newline_indent) @ encode_basestring_ascii k @ [58, 32]
      in if digits_ok lim v
         then (case write_members lim False rest of (t, e) \<Rightarrow> (head @ int_repr v @ t, e))
         else (head, Some ValueError))"

definition json_dump_text :: "nat \<Rightarrow> stock \<Rightarrow> pystr \<times> exn option" where
  "json_dump_text lim d =
     (if d = [] then ([123, 125], None)
      else case write_members lim True d of
             (t, None) \<Rightarrow> (123 # newline_indent @ t @ [10, 125], None)
           | (t, Some e) \<Rightarrow> (123 # newline_indent @ t, Some e))"

subsection \<open>Decoding\<close>

text \<open>
  The scanners of strings, numbers and constants return \<open>None\<close> where the text does
  not match: a \<^verbatim>\<open>JSONDecodeError\<close>. Whitespace is space, tab, line feed and carriage
  return.
\<close>

definition is_ws :: "nat \<Rightarrow> bool" where
  "is_ws c = (c = 32 \<or> c = 9 \<or> c = 10 \<or> c = 13)"

definition skip_ws :: "pystr \<Rightarrow> pystr" where
  "skip_ws s = dropWhile is_ws s"

text \<open>
  Inside a string, \<^verbatim>\<open>\u\<close> takes exactly four hexadecimal digits. When they give a high
  surrogate and another \<^verbatim>\<open>\u\<close> escape giving a low surrogate follows at once, the two are
  joined into one code point; otherwise the escape stands for itself.
\<close>

definition hexval :: "nat \<Rightarrow> nat option" where
  "hexval c =
     (if 48 \<le> c \<and> c \<le> 57 then Some (c - 48)
      else if 97 \<le> c \<and> c \<le> 102 then Some (c - 87)
      else if 65 \<le> c \<and> c \<le> 70 then Some (c - 55)
      else None)"

definition hex4_val :: "nat \<Rightarrow> nat \<Rightarrow> nat \<Rightarrow> nat \<Rightarrow> nat option" where
  "hex4_val a b c d =
     (case (hexval a, hexval b, hexval c, hexval d) of
        (Some x3, Some x2, Some x1, Some x0) \<Rightarrow> Some (((x3 * 16 + x2) * 16 + x1) * 16 + x0)
      | _ \<Rightarrow> None)"

definition surrogate_pair :: "nat \<Rightarrow> pystr \<Rightarrow> (nat \<times> pystr) option" where
  "surrogate_pair hi s =
     (case s of
        bs # u # a # b # c # d # rest \<Rightarrow>
          if 0xD800 \<le> hi \<and> hi \<le> 0xDBFF \<and> bs = 92 \<and> u = 117 then
            (case hex4_val a b c d of
               Some lo \<Rightarrow>
                 if 0xDC00 \<le> lo \<and> lo \<le> 0xDFFF
                 then Some (0x10000 + ((hi - 0xD800) * 1024 + (lo - 0xDC00)), rest)
                 else None
             | None \<Rightarrow> None)
          else None
      | _ \<Rightarrow> None)"

definition backslash :: "nat \<Rightarrow> nat option" where
  "backslash e =
     (if e = 34 then Some 34 else if e = 92 then Some 92 else if e = 47 then Some 47
      else if e = 98 then Some 8 else if e = 102 then Some 12 else if e = 110 then Some 10
      else if e = 114 then Some 13 else if e = 116 then Some 9 else None)"

definition unescape :: "pystr \<Rightarrow> (nat \<times> pystr) option" where
  "unescape s =
     (case s of
        [] \<Rightarrow> None
      | e # r \<Rightarrow>
          if e = 117 then
            (case r of
               a # b # c # d # r1 \<Rightarrow>
                 (case hex4_val a b c d of
                    None \<Rightarrow> None
                  | Some n \<Rightarrow>
                      (case surrogate_pair n r1 of
                         Some (m, r2) \<Rightarrow> Some (m, r2)
                       | None \<Rightarrow> Some (n, r1)))
             | _ \<Rightarrow> None)
          else (case backslash e of None \<Rightarrow> None | Some x \<Rightarrow> Some (x, r)))"

text \<open>
  \<open>scanstring\<close> reads the text after an opening quote, up to the closing one
  (\<^verbatim>\<open>strict=True\<close>: a raw control character is an error).
\<close>

definition emit :: "nat \<Rightarrow> (pystr \<times> pystr) option \<Rightarrow> (pystr \<times> pystr) option" where
  "emit c r = (case r of None \<Rightarrow> None | Some (s, rest) \<Rightarrow> Some (c # s, rest))"

function scanstring :: "pystr \<Rightarrow> (pystr \<times> pystr) option" where
  "scanstring [] = None"
| "scanstring (c # cs) =
     (if c = 34 then Some ([], cs)
      else if c < 32 then None
      else if c \<noteq> 92 then emit c (scanstring cs)
      else (case unescape cs of
              None \<Rightarrow> None
            | Some (x, r) \<Rightarrow> emit x (scanstring r)))"
  by pat_completeness auto
termination
  by (relation "measure length")
    (auto simp: unescape_def surrogate_pair_def split: list.splits if_splits option.splits)

text \<open>
  A number is \<^verbatim>\<open>-?(0|[1-9][0-9]*)(\.[0-9]+)?([eE][-+]?[0-9]+)?\<close>, the longest match; it is
  an \<^verbatim>\<open>int\<close> when it has neither a fraction nor an exponent, and a \<^verbatim>\<open>float\<close> otherwise.
\<close>

definition is_digit :: "nat \<Rightarrow> bool" where
  "is_digit c = (48 \<le> c \<and> c \<le> 57)"

definition int_of_digits :: "pystr \<Rightarrow> int" where
  "int_of_digits ds = foldl (\<lambda>acc d. acc * 10 + int (d - 48)) 0 ds"

definition match_exponent :: "pystr \<Rightarrow> pystr \<times> pystr" where
  "match_exponent s =
     (case s of
        [] \<Rightarrow> ([], s)
      | e # r \<Rightarrow>
          if e = 101 \<or> e = 69 then
            (let (sg, r1) = (case r of
                               [] \<Rightarrow> ([], r)
                             | g # r' \<Rightarrow> if g = 43 \<or> g = 45 then ([g], r') else ([], r));
                 ds = takeWhile is_digit r1
             in if ds = [] then ([], s) else (e # sg @ ds, dropWhile is_digit r1))
          else ([], s))"

definition match_fraction :: "pystr \<Rightarrow> pystr \<times> pystr" where
  "match_fraction s =
     (case s of
        p # d # r \<Rightarrow>
          if p = 46 \<and> is_digit d
          then (p # d # takeWhile is_digit r, dropWhile is_digit r)
          else ([], s)
      | _ \<Rightarrow> ([], s))"

definition match_number :: "pystr \<Rightarrow> (pyval \<times> pystr) option" where
  "match_number s =
     (let (sign, s1) = (case s of
                          [] \<Rightarrow> ([], s)
                        | c # r \<Rightarrow> if c = 45 then ([c], r) else ([], s))
      in case s1 of
           [] \<Rightarrow> None
         | c # r \<Rightarrow>
             if \<not> is_digit c then None
             else
               let (ip, s2) = (if c = 48 then ([c], r)
                               else (c # takeWhile is_digit r, dropWhile is_digit r));
                   (frac, s3) = match_fraction s2;
                   (ex, s4) = match_exponent s3
               in if frac = [] \<and> ex = []
                  then Some (PInt (if sign = [] then int_of_digits ip else - int_of_digits ip), s4)
                  else Some (PFloat (sign @ ip @ frac @ ex), s4))"

fun strip_prefix :: "pystr \<Rightarrow> pystr \<Rightarrow> pystr option" where
  "strip_prefix [] s = Some s"
| "strip_prefix (p # ps) [] = None"
| "strip_prefix (p # ps) (c # cs) = (if p = c then strip_prefix ps cs else None)"

definition constants :: "(string \<times> pyval) list" where
  "constants =
     [(''null'', PNone), (''true'', PBool True), (''false'', PBool False),
      (''NaN'', PFloat (str ''NaN'')), (''Infinity'', PFloat (str ''Infinity'')),
      (''-Infinity'', PFloat (str ''-Infinity''))]"

fun match_constant :: "(string \<times> pyval) list \<Rightarrow> pystr \<Rightarrow> (pyval \<times> pystr) option" where
  "match_constant [] s = None"
| "match_constant ((name, v) # cs) s =
     (case strip_prefix (str name) s of
        Some rest \<Rightarrow> Some (v, rest)
      | None \<Rightarrow> match_constant cs s)"

text \<open>
  The scanner proper returns the value and the rest of the text, or the exception it
  raises, at the first place of the text where one arises: \<^verbatim>\<open>ValueError\<close> for an integer
  with more digits than the limit \<open>lim\<close> (a number with a fraction or an exponent is a
  \<^verbatim>\<open>float\<close> and has no limit), \<^verbatim>\<open>RecursionError\<close> for an array or object opened when
  \<open>room\<close>, the depth still free, is 0, and \<^verbatim>\<open>JSONDecodeError\<close> for a text that is not
  JSON. Its first argument bounds the depth of the calls, so that the recursion is
  structural; \<open>json_loads\<close> starts it with more than the text can use
  (\<open>scan_once_fuel\<close> below). An object is built by assigning its members in turn, so
  a repeated key keeps its first position and its last value.
\<close>

definition number_ok :: "nat \<Rightarrow> pyval \<Rightarrow> bool" where
  "number_ok lim v = (case v of PInt i \<Rightarrow> digits_ok lim i | _ \<Rightarrow> True)"

fun scan_once :: "nat \<Rightarrow> nat \<Rightarrow> nat \<Rightarrow> pystr \<Rightarrow> exn + (pyval \<times> pystr)"
  and parse_members ::
    "nat \<Rightarrow> nat \<Rightarrow> nat \<Rightarrow> pystr \<Rightarrow> (pystr \<times> pyval) list \<Rightarrow> exn + (pyval \<times> pystr)"
  and parse_elems :: "nat \<Rightarrow> nat \<Rightarrow> nat \<Rightarrow> pystr \<Rightarrow> pyval list \<Rightarrow> exn + (pyval \<times> pystr)"
where
  "scan_once 0 lim room s = Inl JSONDecodeError"
| "scan_once (Suc n) lim room s =
     (case s of
        [] \<Rightarrow> Inl JSONDecodeError
      | c # r \<Rightarrow>
          if c = 34 then
            (case scanstring r of
               None \<Rightarrow> Inl JSONDecodeError
             | Some (x, r') \<Rightarrow> Inr (PStr x, r'))
          else if c = 123 then
            (case room of
               0 \<Rightarrow> Inl RecursionError
             | Suc room' \<Rightarrow>
                 (case skip_ws r of
                    [] \<Rightarrow> Inl JSONDecodeError
                  | c' # r' \<Rightarrow>
                      if c' = 125 then Inr (PDict [], r')
                      else parse_members n lim room' (c' # r') []))
          else if c = 91 then
            (case room of
               0 \<Rightarrow> Inl RecursionError
             | Suc room' \<Rightarrow>
                 (case skip_ws r of
                    [] \<Rightarrow> Inl JSONDecodeError
                  | c' # r' \<Rightarrow>
                      if c' = 93 then Inr (PList [], r')
                      else parse_elems n lim room' (c' # r') []))
          else
            (case match_constant constants s of
               Some res \<Rightarrow> Inr res
             | None \<Rightarrow>
                 (case match_number s of
                    None \<Rightarrow> Inl JSONDecodeError
                  | Some (v, r') \<Rightarrow> if number_ok lim v then Inr (v, r') else Inl ValueError)))"
| "parse_members 0 lim room s d = Inl JSONDecodeError"
| "parse_members (Suc n) lim room s d =
     (case s of
        [] \<Rightarrow> Inl JSONDecodeError
      | q # r \<Rightarrow>
          if q \<noteq> 34 then Inl JSONDecodeError
          else
            (case scanstring r of
               None \<Rightarrow> Inl JSONDecodeError
             | Some (key, r1) \<Rightarrow>
                 (case skip_ws r1 of
                    [] \<Rightarrow> Inl JSONDecodeError
                  | c # r2 \<Rightarrow>
                      if c \<noteq> 58 then Inl JSONDecodeError
                      else
                        (case scan_once n lim room (skip_ws r2) of
                           Inl e \<Rightarrow> Inl e
                         | Inr (v, r3) \<Rightarrow>
                             (case skip_ws r3 of
                                [] \<Rightarrow> Inl JSONDecodeError
                              | e # r4 \<Rightarrow>
                                  if e = 125 then Inr (PDict (AList.update key v d), r4)
                                  else if e = 44 then
                                    parse_members n lim room (skip_ws r4) (AList.update key v d)
                                  else Inl JSONDecodeError)))))"
| "parse_elems 0 lim room s acc = Inl JSONDecodeError"
| "parse_elems (Suc n) lim room s acc =
     (case scan_once n lim room s of
        Inl e \<Rightarrow> Inl e
      | Inr (v, r) \<Rightarrow>
          (case skip_ws r of
             [] \<Rightarrow> Inl JSONDecodeError
           | e # r' \<Rightarrow>
               if e = 93 then Inr (PList (acc @ [v]), r')
               else if e = 44 then parse_elems n lim room (skip_ws r') (acc @ [v])
               else Inl JSONDecodeError))"

text \<open>\<^verbatim>\<open>json.loads\<close>: one value, with whitespace around it and nothing else.\<close>

definition json_loads :: "interpreter \<Rightarrow> pystr \<Rightarrow> exn + pyval" where
  "json_loads ip s =
     (case scan_once (2 * length s + 1) (int_max_str_digits ip) (json_depth ip) (skip_ws s) of
        Inl e \<Rightarrow> Inl e
      | Inr (v, rest) \<Rightarrow> if skip_ws rest = [] then Inr v else Inl JSONDecodeError)"

text \<open>The exceptions that the decoder can raise.\<close>

definition decoder_error :: "exn \<Rightarrow> bool" where
  "decoder_error e = (e = JSONDecodeError \<or> e = ValueError \<or> e = RecursionError)"

section \<open>Persistence\<close>

text \<open>
  \<^verbatim>\<open>open\<close> first turns the path into the bytes the system takes (UTF-8 with
  \<^verbatim>\<open>surrogateescape\<close>, as on a POSIX system): a surrogate other than
  \<^verbatim>\<open>U+DC80..U+DCFF\<close> has no encoding and raises \<^verbatim>\<open>UnicodeEncodeError\<close>, and a NUL character
  raises \<^verbatim>\<open>ValueError\<close>. Neither is an \<^verbatim>\<open>OSError\<close>.
\<close>

definition path_error :: "pystr \<Rightarrow> exn option" where
  "path_error path =
     (if list_ex (\<lambda>c. 0xD800 \<le> c \<and> c \<le> 0xDFFF \<and> \<not> (0xDC80 \<le> c \<and> c \<le> 0xDCFF)) path
      then Some UnicodeEncodeError
      else if 0 \<in> set path then Some ValueError
      else None)"

text \<open>
  \<^verbatim>\<open>open(path, "r", encoding="utf-8")\<close> followed by reading the whole file, and
  \<^verbatim>\<open>open(path, "w", encoding="utf-8")\<close>, which creates or truncates the file.
\<close>

definition open_read :: "(pystr \<Rightarrow> node) \<Rightarrow> pystr \<Rightarrow> exn + pystr" where
  "open_read fs path =
     (case path_error path of
        Some e \<Rightarrow> Inl e
      | None \<Rightarrow>
          (case fs path of
             Absent \<Rightarrow> Inl (OSError FileNotFoundError)
           | Blocked e \<Rightarrow> Inl (OSError e)
           | Undecodable \<Rightarrow> Inl UnicodeDecodeError
           | Text t \<Rightarrow> Inr t))"

definition open_write :: "(pystr \<Rightarrow> node) \<Rightarrow> pystr \<Rightarrow> exn + (pystr \<Rightarrow> node)" where
  "open_write fs path =
     (case path_error path of
        Some e \<Rightarrow> Inl e
      | None \<Rightarrow>
          (case fs path of
             Blocked e \<Rightarrow> Inl (OSError e)
           | _ \<Rightarrow> Inr (fs(path := Text []))))"

text \<open>
  \<^verbatim>\<open>json.dump(d, file, indent=4)\<close> on the open file: the exception, if any, and the file
  system with what was written, which the \<^verbatim>\<open>with\<close> block flushes when it is left.
\<close>

definition json_dump ::
  "nat \<Rightarrow> stock \<Rightarrow> pystr \<Rightarrow> (pystr \<Rightarrow> node) \<Rightarrow> exn option \<times> (pystr \<Rightarrow> node)" where
  "json_dump lim d path fs =
     (case json_dump_text lim d of (t, e) \<Rightarrow> (e, fs(path := Text t)))"

definition json_load :: "interpreter \<Rightarrow> (pystr \<Rightarrow> node) \<Rightarrow> pystr \<Rightarrow> exn + pyval" where
  "json_load ip fs path =
     (case open_read fs path of
        Inl e \<Rightarrow> Inl e
      | Inr t \<Rightarrow> json_loads ip t)"

text \<open>
  A call returns the object as it is afterwards (\<open>Inr\<close>), or raises (\<open>Inl\<close>): then
  the exception comes with the object as the call leaves it.

  \<^verbatim>\<open>save_data\<close>. \<open>save_data_try\<close> is the body of the \<^verbatim>\<open>try\<close>, with the exception it ends
  on, if any. The only handler is \<^verbatim>\<open>except OSError\<close>: any other exception leaves the
  function.
\<close>

definition save_data_try :: "stock inventory \<Rightarrow> exn option \<times> stock inventory" where
  "save_data_try self =
     (case open_write (files self) (file_path self) of
        Inl e \<Rightarrow> (Some e, self)
      | Inr fs \<Rightarrow>
          (case json_dump (int_max_str_digits (interp self)) (stock_data self) (file_path self) fs of
             (Some e, fs') \<Rightarrow> (Some e, self\<lparr>files := fs'\<rparr>)
           | (None, fs') \<Rightarrow>
               (None, logging INFO ''Inventory data saved successfully.'' []
                        (self\<lparr>files := fs'\<rparr>))))"

definition save_data :: "stock inventory \<Rightarrow> (exn \<times> stock inventory) + stock inventory" where
  "save_data self =
     (case save_data_try self of
        (None, saved) \<Rightarrow> Inr saved
      | (Some (OSError error), left) \<Rightarrow>
          Inr (logging ERROR ''Error saving inventory data: %s'' [Exc error] left)
      | (Some e, left) \<Rightarrow> Inl (e, left))"

text \<open>The assignment \<^verbatim>\<open>self.stock_data = v\<close>, which may change the type of the field.\<close>

definition assign_stock :: "'e \<Rightarrow> 'd inventory \<Rightarrow> 'e inventory" where
  "assign_stock v self =
     \<lparr>stock_data = v, file_path = file_path self, log = log self, files = files self,
      interp = interp self\<rparr>"

text \<open>
  \<^verbatim>\<open>load_data\<close>: the two \<^verbatim>\<open>except\<close> clauses catch \<^verbatim>\<open>FileNotFoundError\<close> and
  \<^verbatim>\<open>json.JSONDecodeError\<close>; any other exception leaves the function, before
  \<^verbatim>\<open>self.stock_data\<close> is assigned.
\<close>

definition load_data :: "'d inventory \<Rightarrow> (exn \<times> 'd inventory) + pyval inventory" where
  "load_data self =
     (case json_load (interp self) (files self) (file_path self) of
        Inr v \<Rightarrow>
          Inr (logging INFO ''Inventory data loaded successfully.'' [] (assign_stock v self))
      | Inl (OSError FileNotFoundError) \<Rightarrow>
          Inr (logging WARNING ''File %s not found. Starting fresh.'' [Val (PStr (file_path self))]
                 (assign_stock (PDict []) self))
      | Inl JSONDecodeError \<Rightarrow>
          Inr (logging ERROR ''Error decoding JSON file. Starting fresh.'' []
                 (assign_stock (PDict []) self))
      | Inl e \<Rightarrow> Inl (e, self))"

text \<open>
  \<^verbatim>\<open>Inventory(file_path)\<close>: the constructor, in a process with the given log, file
  system and interpreter.
\<close>

definition Inventory ::
  "pystr \<Rightarrow> log_record list \<Rightarrow> (pystr \<Rightarrow> node) \<Rightarrow> interpreter \<Rightarrow>
   (exn \<times> stock inventory) + pyval inventory" where
  "Inventory path lg fs ip =
     load_data \<lparr>stock_data = ([] :: stock), file_path = path, log = lg, files = fs, interp = ip\<rparr>"

text \<open>The Python value of a well-typed store, as \<^verbatim>\<open>json.load\<close> would return it.\<close>

definition dict_value :: "stock \<Rightarrow> pyval" where
  "dict_value d = PDict (map (\<lambda>(k, q). (k, PInt q)) d)"

section \<open>Sequences of calls\<close>

text \<open>A sequence of calls of the two mutating operations, with any arguments.\<close>

datatype call = Add pyval pyval | Remove pyval pyval

fun do_call :: "call \<Rightarrow> stock inventory \<Rightarrow> stock inventory" where
  "do_call (Add item qty) self = add_item item qty self"
| "do_call (Remove item qty) self = remove_item item qty self"

fun run :: "call list \<Rightarrow> stock inventory \<Rightarrow> stock inventory" where
  "run [] self = self"
| "run (c # cs) self = run cs (do_call c self)"

section \<open>Example states and well-formedness\<close>

text \<open>
  The object that \<^verbatim>\<open>Inventory()\<close> is in a directory without \<^verbatim>\<open>inventory.json\<close>, at its
  declared type, and the same object holding 15 of \<^verbatim>\<open>x\<close>.
\<close>

definition fresh :: "stock inventory" where
  "fresh =
     \<lparr>stock_data = [], file_path = str ''inventory.json'', log = [], files = (\<lambda>_. Absent),
      interp = \<lparr>int_max_str_digits = 4300, json_depth = 990\<rparr>\<rparr>"

definition fifteen :: "stock inventory" where
  "fifteen = fresh\<lparr>stock_data := [(str ''x'', 15)]\<rparr>"

text \<open>
  \<open>is_str\<close>: every element is a code point. The two halves of the surrogate range,
  and the strings in which no high surrogate stands directly before a low one.
\<close>

definition is_str :: "pystr \<Rightarrow> bool" where
  "is_str s = (\<forall>c \<in> set s. c < 0x110000)"

definition is_high :: "nat \<Rightarrow> bool" where
  "is_high c = (0xD800 \<le> c \<and> c \<le> 0xDBFF)"

definition is_low :: "nat \<Rightarrow> bool" where
  "is_low c = (0xDC00 \<le> c \<and> c \<le> 0xDFFF)"

fun no_surrogate_pair :: "pystr \<Rightarrow> bool" where
  "no_surrogate_pair (a # b # cs) = (\<not> (is_high a \<and> is_low b) \<and> no_surrogate_pair (b # cs))"
| "no_surrogate_pair _ = True"

text \<open>
  \<^verbatim>\<open>inventory.save_data()\<close> followed by \<^verbatim>\<open>inventory.load_data()\<close>, as \<^verbatim>\<open>main\<close> does.
\<close>

definition save_then_load :: "stock inventory \<Rightarrow> (exn \<times> stock inventory) + pyval inventory" where
  "save_then_load self =
     (case save_data self of Inl raised \<Rightarrow> Inl raised | Inr saved \<Rightarrow> load_data saved)"

text \<open>
  More examples: a store with two items; a store whose only item is named by a high
  surrogate followed by a low one (a \<^verbatim>\<open>str\<close> of length 2); the fresh object in a file
  system where every path holds the given node; a sequence of calls; and the text of a
  file cut off in the middle of an entry.
\<close>

definition two_items :: "stock inventory" where
  "two_items = fresh\<lparr>stock_data := [(str ''apple'', 7), (str ''banana'', 2)]\<rparr>"

definition surrogates :: "stock inventory" where
  "surrogates = fresh\<lparr>stock_data := [([0xD83D, 0xDE00], 1)]\<rparr>"

definition on_file :: "node \<Rightarrow> stock inventory" where
  "on_file f = fresh\<lparr>files := (\<lambda>_. f)\<rparr>"

definition orange_run :: "call list" where
  "orange_run = [Add (PStr (str ''orange'')) (PInt 6), Add (PStr (str ''kiwi'')) (PInt 1)]"

definition orange_gone :: "stock inventory" where
  "orange_gone =
     run [Add (PStr (str ''kiwi'')) (PInt 2)]
       (remove_item (PStr (str ''orange'')) (PInt 10) (run orange_run fresh))"

definition truncated :: pystr where
  "truncated = [123, 34, 120, 34, 58, 32, 49, 53]"

text \<open>
  A quantity of 4301 digits, one more than the interpreter of \<open>fresh\<close> converts, and the
  object after \<^verbatim>\<open>add_item("big", 10 ** 4300)\<close>.
\<close>

definition big :: int where
  "big = 10 ^ 4300"

text \<open>The decimal text of \<open>big\<close>, and 1000 opening brackets.\<close>

definition long_number :: pystr where
  "long_number = 49 # replicate 4300 48"

definition deep_array :: pystr where
  "deep_array = replicate 1000 91"

definition big_stock :: "stock inventory" where
  "big_stock = add_item (PStr (str ''big'')) (PInt big) fresh"

text \<open>
  Two items are added, the first named by a high and a low surrogate and the second by
  the code point that the two stand for in UTF-16, and the second is removed.
\<close>

definition smiley_run :: "call list" where
  "smiley_run =
     [Add (PStr [0xD83D, 0xDE00]) (PInt 1), Add (PStr [0x1F600]) (PInt 1),
      Remove (PStr [0x1F600]) (PInt 1)]"

text \<open>Every quantity stored in a dict satisfies \<open>P\<close>.\<close>

definition quantities :: "(int \<Rightarrow> bool) \<Rightarrow> stock \<Rightarrow> bool" where
  "quantities P d = (\<forall>item q. map_of d item = Some q \<longrightarrow> P q)"

section \<open>The store: basic facts\<close>

lemma logging_fields [simp]:
  "stock_data (logging lv msg args self) = stock_data self"
  "file_path (logging lv msg args self) = file_path self"
  "files (logging lv msg args self) = files self"
  "log (logging lv msg args self) = log self @ [(lv, msg, args)]"
  "interp (logging lv msg args self) = interp self"
  by (simp_all add: logging_def)

lemma add_item_stock:
  "stock_data (add_item (PStr name) (PInt n) self) =
     (if n < 0 then stock_data self
      else AList.update name (dict_get (stock_data self) name 0 + n) (stock_data self))"
  by (simp add: add_item_def)

lemma remove_item_stock:
  "stock_data (remove_item (PStr name) (PInt n) self) =
     (case map_of (stock_data self) name of
        None \<Rightarrow> stock_data self
      | Some stored \<Rightarrow>
          if n < 0 then stock_data self
          else if stored - n \<le> 0 then AList.delete name (stock_data self)
          else AList.update name (stored - n) (stock_data self))"
  by (simp add: remove_item_def delete_update_same split: option.split)

lemma add_item_cases:
  "stock_data (add_item item qty self) = stock_data self \<or>
   (\<exists>name n. as_str item = Some name \<and> as_int qty = Some n \<and> 0 \<le> n \<and>
      stock_data (add_item item qty self) =
        AList.update name (dict_get (stock_data self) name 0 + n) (stock_data self))"
  by (auto simp: add_item_def split: option.splits)

lemma remove_item_cases:
  "stock_data (remove_item item qty self) = stock_data self \<or>
   (\<exists>name n stored. as_str item = Some name \<and> as_int qty = Some n \<and> 0 \<le> n \<and>
      map_of (stock_data self) name = Some stored \<and>
      stock_data (remove_item item qty self) =
        (if stored - n \<le> 0 then AList.delete name (stock_data self)
         else AList.update name (stored - n) (stock_data self)))"
  by (auto simp: remove_item_def delete_update_same split: option.splits)


lemma do_call_cases:
  "stock_data (do_call c self) = stock_data self \<or>
   (\<exists>item qty name n. c = Add item qty \<and> as_int qty = Some n \<and> 0 \<le> n \<and>
      stock_data (do_call c self) =
        AList.update name (dict_get (stock_data self) name 0 + n) (stock_data self)) \<or>
   (\<exists>name n stored. 0 \<le> n \<and> map_of (stock_data self) name = Some stored \<and>
      stock_data (do_call c self) =
        (if stored - n \<le> 0 then AList.delete name (stock_data self)
         else AList.update name (stored - n) (stock_data self)))"
proof (cases c)
  case (Add item qty)
  from add_item_cases [of item qty self] show ?thesis
    unfolding Add do_call.simps by blast
next
  case (Remove item qty)
  from remove_item_cases [of item qty self] show ?thesis
    unfolding Remove do_call.simps by blast
qed

lemma quantities_update:
  "quantities P d \<Longrightarrow> P v \<Longrightarrow> quantities P (AList.update k v d)"
  by (simp add: quantities_def update_conv')

lemma quantities_delete: "quantities P d \<Longrightarrow> quantities P (AList.delete k d)"
  by (simp add: quantities_def delete_conv')

lemma dict_get_nonneg: "quantities (\<lambda>q. 0 \<le> q) d \<Longrightarrow> 0 \<le> dict_get d name 0"
  by (auto simp: quantities_def dict_get_def split: option.split)

lemma do_call_nonneg:
  assumes "quantities (\<lambda>q. 0 \<le> q) (stock_data self)"
  shows "quantities (\<lambda>q. 0 \<le> q) (stock_data (do_call c self))"
  using do_call_cases [of c self] assms dict_get_nonneg [OF assms]
  by (auto intro!: quantities_update quantities_delete)

lemma do_call_pos:
  assumes "quantities (\<lambda>q. 0 < q) (stock_data self)"
    and "\<forall>item qty. c = Add item qty \<longrightarrow> as_int qty \<noteq> Some 0"
  shows "quantities (\<lambda>q. 0 < q) (stock_data (do_call c self))"
proof -
  from assms(1) have "quantities (\<lambda>q. 0 \<le> q) (stock_data self)"
    unfolding quantities_def by (meson less_imp_le)
  then have get: "0 \<le> dict_get (stock_data self) name 0" for name
    by (rule dict_get_nonneg)
  from do_call_cases [of c self] show ?thesis
  proof (elim disjE exE conjE)
    assume "stock_data (do_call c self) = stock_data self"
    with assms show ?thesis by simp
  next
    fix item qty name n
    assume c: "c = Add item qty" "as_int qty = Some n" "0 \<le> n" and
      upd: "stock_data (do_call c self) =
         AList.update name (dict_get (stock_data self) name 0 + n) (stock_data self)"
    from c assms(2) have "0 < n" by auto
    with get [of name] have "0 < dict_get (stock_data self) name 0 + n" by simp
    with assms(1) upd show ?thesis by (simp add: quantities_update)
  next
    fix name n stored
    assume "stock_data (do_call c self) =
      (if stored - n \<le> 0 then AList.delete name (stock_data self)
       else AList.update name (stored - n) (stock_data self))"
    with assms(1) show ?thesis
      by (auto intro!: quantities_update quantities_delete)
  qed
qed

lemma run_nonneg:
  "quantities (\<lambda>q. 0 \<le> q) (stock_data self) \<Longrightarrow>
   quantities (\<lambda>q. 0 \<le> q) (stock_data (run cs self))"
proof (induction cs arbitrary: self)
  case Nil
  then show ?case by simp
next
  case (Cons c cs)
  from Cons.prems have "quantities (\<lambda>q. 0 \<le> q) (stock_data (do_call c self))"
    by (rule do_call_nonneg)
  then show ?case by (simp add: Cons.IH)
qed

lemma run_pos:
  "quantities (\<lambda>q. 0 < q) (stock_data self) \<Longrightarrow>
   \<forall>item qty. Add item qty \<in> set cs \<longrightarrow> as_int qty \<noteq> Some 0 \<Longrightarrow>
   quantities (\<lambda>q. 0 < q) (stock_data (run cs self))"
proof (induction cs arbitrary: self)
  case Nil
  then show ?case by simp
next
  case (Cons c cs)
  from Cons.prems have "quantities (\<lambda>q. 0 < q) (stock_data (do_call c self))"
    by (intro do_call_pos) auto
  with Cons.IH [of "do_call c self"] Cons.prems(2) show ?case by simp
qed

lemma do_call_dict_ok: "dict_ok (stock_data self) \<Longrightarrow> dict_ok (stock_data (do_call c self))"
  using do_call_cases [of c self]
  by (auto simp: dict_ok_def distinct_update distinct_delete split: if_splits)

lemma run_dict_ok: "dict_ok (stock_data self) \<Longrightarrow> dict_ok (stock_data (run cs self))"
proof (induction cs arbitrary: self)
  case Nil
  then show ?case by simp
next
  case (Cons c cs)
  then show ?case by (simp add: do_call_dict_ok)
qed

lemma map_of_add_item:
  "0 \<le> n \<Longrightarrow>
   map_of (stock_data (add_item (PStr name) (PInt n) self)) =
     (map_of (stock_data self))(name \<mapsto> get_qty name self + n)"
  by (simp add: add_item_stock update_conv' get_qty_def)

lemma map_of_remove_item:
  "map_of (stock_data self) name = Some stored \<Longrightarrow> 0 \<le> n \<Longrightarrow>
   map_of (stock_data (remove_item (PStr name) (PInt n) self)) =
     (if stored - n \<le> 0 then (map_of (stock_data self))(name := None)
      else (map_of (stock_data self))(name \<mapsto> stored - n))"
  by (simp add: remove_item_stock update_conv' delete_conv')

lemma set_check_low_items:
  "set (check_low_items t self) = {item. \<exists>q. (item, q) \<in> set (stock_data self) \<and> q < t}"
  by (auto simp: check_low_items_def)

lemma distinct_check_low_items:
  "distinct (map fst d) \<Longrightarrow> distinct (concat (map (\<lambda>(item, qty). if qty < t then [item] else []) d))"
  by (induction d) (force split: if_splits)+

lemma as_str_Some: "as_str item = Some name \<longleftrightarrow> item = PStr name"
  by (cases item) auto

lemma add_item_keys:
  "fst ` set (stock_data (add_item item qty self)) \<subseteq>
     fst ` set (stock_data self) \<union> {k. item = PStr k}"
proof -
  from add_item_cases [of item qty self] show ?thesis
  proof (elim disjE exE conjE)
    assume "stock_data (add_item item qty self) = stock_data self"
    then show ?thesis by auto
  next
    fix name n
    assume "as_str item = Some name"
      and "stock_data (add_item item qty self) =
        AList.update name (dict_get (stock_data self) name 0 + n) (stock_data self)"
    then show ?thesis by (simp add: as_str_Some dom_update)
  qed
qed

lemma remove_item_keys:
  "fst ` set (stock_data (remove_item item qty self)) \<subseteq> fst ` set (stock_data self)"
proof -
  from remove_item_cases [of item qty self] show ?thesis
  proof (elim disjE exE conjE)
    assume "stock_data (remove_item item qty self) = stock_data self"
    then show ?thesis by simp
  next
    fix name n stored
    assume present: "map_of (stock_data self) name = Some stored"
      and eq: "stock_data (remove_item item qty self) =
        (if stored - n \<le> 0 then AList.delete name (stock_data self)
         else AList.update name (stored - n) (stock_data self))"
    from present have "name \<in> fst ` set (stock_data self)"
      by (auto dest: map_of_SomeD intro: rev_image_eqI)
    then have "fst ` set (AList.update name (stored - n) (stock_data self)) \<subseteq>
        fst ` set (stock_data self)"
      by (simp add: dom_update)
    with dom_delete_subset [of name "stock_data self"] eq show ?thesis
      by (simp split: if_splits)
  qed
qed

lemma do_call_absent:
  assumes "name \<notin> fst ` set (stock_data self)" and "\<forall>qty. c \<noteq> Add (PStr name) qty"
  shows "name \<notin> fst ` set (stock_data (do_call c self))"
proof (cases c)
  case (Add item qty)
  with assms(2) have "item \<noteq> PStr name" by auto
  with add_item_keys [of item qty self] assms(1) Add show ?thesis by auto
next
  case (Remove item qty)
  with remove_item_keys [of item qty self] assms(1) show ?thesis by auto
qed

lemma run_absent:
  "name \<notin> fst ` set (stock_data self) \<Longrightarrow> \<forall>qty. Add (PStr name) qty \<notin> set cs \<Longrightarrow>
   name \<notin> fst ` set (stock_data (run cs self))"
proof (induction cs arbitrary: self)
  case Nil
  then show ?case by simp
next
  case (Cons c cs)
  from Cons.prems have "name \<notin> fst ` set (stock_data (do_call c self))"
    by (intro do_call_absent) auto
  with Cons.IH [of "do_call c self"] Cons.prems(2) show ?case by simp
qed

lemma check_low_items_subset: "set (check_low_items t self) \<subseteq> fst ` set (stock_data self)"
  by (auto simp: check_low_items_def intro: rev_image_eqI)

section \<open>The codec: escapes\<close>

lemma hex_arith:
  fixes n :: nat
  assumes "n < 65536"
  shows "((n div 4096 mod 16 * 16 + n div 256 mod 16) * 16 + n div 16 mod 16) * 16 + n mod 16 = n"
proof -
  have a: "n div 256 = n div 16 div 16" by (simp add: div_mult2_eq)
  have b: "n div 4096 = n div 16 div 16 div 16" by (simp add: div_mult2_eq)
  have c: "n div 16 div 16 div 16 mod 16 = n div 16 div 16 div 16"
    using assms unfolding b [symmetric] by simp
  have s1: "n div 16 * 16 + n mod 16 = n" by simp
  have s2: "n div 16 div 16 * 16 + n div 16 mod 16 = n div 16" by simp
  have s3: "n div 16 div 16 div 16 * 16 + n div 16 div 16 mod 16 = n div 16 div 16" by simp
  show ?thesis unfolding a b c s3 s2 s1 ..
qed

lemma hexval_hex_digit: "d < 16 \<Longrightarrow> hexval (hex_digit d) = Some d"
  by (simp add: hexval_def hex_digit_def)

lemma hex4_val_hex_digits:
  "a < 16 \<Longrightarrow> b < 16 \<Longrightarrow> c < 16 \<Longrightarrow> d < 16 \<Longrightarrow>
   hex4_val (hex_digit a) (hex_digit b) (hex_digit c) (hex_digit d) =
     Some (((a * 16 + b) * 16 + c) * 16 + d)"
  by (simp add: hex4_val_def hexval_hex_digit)

lemma u_escape_shape:
  assumes "n < 65536"
  shows "\<exists>a b c d. u_escape n = [92, 117, a, b, c, d] \<and> hex4_val a b c d = Some n"
proof -
  have "hex4_val (hex_digit (n div 4096 mod 16)) (hex_digit (n div 256 mod 16))
          (hex_digit (n div 16 mod 16)) (hex_digit (n mod 16)) =
        Some (((n div 4096 mod 16 * 16 + n div 256 mod 16) * 16 + n div 16 mod 16) * 16 + n mod 16)"
    by (rule hex4_val_hex_digits) simp_all
  also have "\<dots> = Some n"
    by (simp only: hex_arith [OF assms])
  finally show ?thesis
    unfolding u_escape_def by blast
qed

lemma surrogate_pair_first: "bs \<noteq> 92 \<Longrightarrow> surrogate_pair hi (bs # r) = None"
  by (simp add: surrogate_pair_def split: list.split)

lemma surrogate_pair_second: "u \<noteq> 117 \<Longrightarrow> surrogate_pair hi (bs # u # r) = None"
  by (simp add: surrogate_pair_def split: list.split)

lemma surrogate_pair_not_high: "\<not> is_high hi \<Longrightarrow> surrogate_pair hi s = None"
  by (auto simp: surrogate_pair_def is_high_def split: list.split)

lemma surrogate_pair_u_escape:
  assumes "n < 65536"
  shows "surrogate_pair hi (u_escape n @ r) =
     (if is_high hi \<and> is_low n
      then Some (0x10000 + ((hi - 0xD800) * 1024 + (n - 0xDC00)), r) else None)"
proof -
  from u_escape_shape [OF assms] obtain a b c d
    where "u_escape n = [92, 117, a, b, c, d]" "hex4_val a b c d = Some n" by blast
  then show ?thesis
    by (simp add: surrogate_pair_def is_high_def is_low_def)
qed

lemma unescape_u_escape:
  assumes "n < 65536"
  shows "unescape (tl (u_escape n) @ r) =
     (case surrogate_pair n r of Some (m, r2) \<Rightarrow> Some (m, r2) | None \<Rightarrow> Some (n, r))"
proof -
  from u_escape_shape [OF assms] obtain a b c d
    where "u_escape n = [92, 117, a, b, c, d]" "hex4_val a b c d = Some n" by blast
  then show ?thesis
    by (simp add: unescape_def)
qed

lemma u_escape_Cons: "u_escape n = 92 # tl (u_escape n)"
  by (simp add: u_escape_def)


lemma scanstring_backslash:
  "backslash e = Some x \<Longrightarrow> scanstring (92 # e # t) = emit x (scanstring t)"
  by (auto simp: unescape_def backslash_def split: if_splits)

lemma scanstring_plain:
  "32 \<le> c \<Longrightarrow> c \<noteq> 34 \<Longrightarrow> c \<noteq> 92 \<Longrightarrow> scanstring (c # t) = emit c (scanstring t)"
  by simp

lemma scanstring_u_escape:
  assumes "n < 65536"
  shows "scanstring (u_escape n @ t) =
     (case surrogate_pair n t of
        Some (m, r2) \<Rightarrow> emit m (scanstring r2)
      | None \<Rightarrow> emit n (scanstring t))"
proof -
  have "scanstring (u_escape n @ t) = scanstring (92 # (tl (u_escape n) @ t))"
    by (simp add: u_escape_def)
  also have "\<dots> = (case unescape (tl (u_escape n) @ t) of
                        None \<Rightarrow> None | Some (x, r) \<Rightarrow> emit x (scanstring r))"
    by simp
  finally show ?thesis
    by (simp add: unescape_u_escape [OF assms] split: option.split)
qed

lemma surrogate_join:
  fixes c :: nat
  assumes "65536 \<le> c" "c < 1114112"
  shows "65536 + ((55296 + (c - 65536) div 1024 mod 1024 - 55296) * 1024 +
           (56320 + (c - 65536) mod 1024 - 56320)) = c"
proof -
  have "(c - 65536) div 1024 < 1024" using assms by simp
  then have "(c - 65536) div 1024 mod 1024 = (c - 65536) div 1024" by simp
  then have "(55296 + (c - 65536) div 1024 mod 1024 - 55296) * 1024 +
           (56320 + (c - 65536) mod 1024 - 56320) = c - 65536"
    by simp
  with assms show ?thesis by simp
qed

lemma scanstring_encode_char:
  assumes "c < 0x110000" and "is_high c \<Longrightarrow> surrogate_pair c t = None"
  shows "scanstring (encode_char c @ t) = emit c (scanstring t)"
proof -
  consider (short) "c = 34 \<or> c = 92 \<or> c = 10 \<or> c = 13 \<or> c = 9 \<or> c = 8 \<or> c = 12"
    | (plain) "32 \<le> c" "c \<le> 126" "c \<noteq> 34" "c \<noteq> 92"
    | (bmp) "c < 32 \<or> 126 < c" "c < 65536" "c \<noteq> 10" "c \<noteq> 13" "c \<noteq> 9" "c \<noteq> 8" "c \<noteq> 12"
    | (astral) "65536 \<le> c"
    by linarith
  then show ?thesis
  proof cases
    case short
    then show ?thesis
      by (auto simp: encode_char_def unescape_def backslash_def)
  next
    case plain
    then have "encode_char c = [c]" by (auto simp: encode_char_def)
    with plain show ?thesis by (simp add: scanstring_plain)
  next
    case bmp
    then have enc: "encode_char c = u_escape c" by (auto simp: encode_char_def)
    have "surrogate_pair c t = None"
      using assms(2) surrogate_pair_not_high by blast
    with bmp show ?thesis by (simp add: enc scanstring_u_escape)
  next
    case astral
    define h where "h = 55296 + (c - 65536) div 1024 mod 1024"
    define l where "l = 56320 + (c - 65536) mod 1024"
    have h: "h < 65536" "is_high h" and l: "l < 65536" "is_low l"
      by (simp_all add: h_def l_def is_high_def is_low_def)
    from astral have enc: "encode_char c = u_escape h @ u_escape l"
      by (auto simp: encode_char_def h_def l_def)
    have join: "65536 + ((h - 55296) * 1024 + (l - 56320)) = c"
      unfolding h_def l_def using astral assms(1) by (intro surrogate_join) simp_all
    have "surrogate_pair h (u_escape l @ t) = Some (c, t)"
      using h l join by (simp add: surrogate_pair_u_escape)
    then show ?thesis
      using h by (simp add: enc scanstring_u_escape)
  qed
qed


lemma encode_char_not_pair:
  assumes "c < 0x110000" "\<not> is_low c"
  shows "surrogate_pair hi (encode_char c @ t) = None"
proof -
  consider (short) "c = 34 \<or> c = 92 \<or> c = 10 \<or> c = 13 \<or> c = 9 \<or> c = 8 \<or> c = 12"
    | (plain) "32 \<le> c" "c \<le> 126" "c \<noteq> 34" "c \<noteq> 92"
    | (bmp) "c < 32 \<or> 126 < c" "c < 65536" "c \<noteq> 10" "c \<noteq> 13" "c \<noteq> 9" "c \<noteq> 8" "c \<noteq> 12"
    | (astral) "65536 \<le> c"
    by linarith
  then show ?thesis
  proof cases
    case short
    then show ?thesis
      by (auto simp: encode_char_def surrogate_pair_second)
  next
    case plain
    then have "encode_char c = [c]" by (auto simp: encode_char_def)
    with plain show ?thesis by (simp add: surrogate_pair_first)
  next
    case bmp
    then have "encode_char c = u_escape c" by (auto simp: encode_char_def)
    with bmp assms(2) show ?thesis by (simp add: surrogate_pair_u_escape)
  next
    case astral
    define h where "h = 55296 + (c - 65536) div 1024 mod 1024"
    have h: "h < 65536" "\<not> is_low h"
      by (simp_all add: h_def is_low_def)
    from astral have "encode_char c = u_escape h @ u_escape (56320 + (c - 65536) mod 1024)"
      by (auto simp: encode_char_def h_def)
    with h show ?thesis by (simp add: surrogate_pair_u_escape)
  qed
qed

lemma encoded_not_pair:
  assumes "is_str cs" "cs = [] \<or> \<not> is_low (hd cs)"
  shows "surrogate_pair hi (concat (map encode_char cs) @ 34 # rest) = None"
proof (cases cs)
  case Nil
  then show ?thesis by (simp add: surrogate_pair_first)
next
  case (Cons d ds)
  with assms have "d < 0x110000" "\<not> is_low d" by (simp_all add: is_str_def)
  then show ?thesis
    using Cons by (simp add: encode_char_not_pair)
qed

lemma no_surrogate_pair_Cons:
  "no_surrogate_pair (c # cs) \<Longrightarrow>
   no_surrogate_pair cs \<and> (is_high c \<longrightarrow> cs = [] \<or> \<not> is_low (hd cs))"
  by (cases cs) auto

lemma scanstring_encoded:
  "is_str s \<Longrightarrow> no_surrogate_pair s \<Longrightarrow>
   scanstring (concat (map encode_char s) @ 34 # rest) = Some (s, rest)"
proof (induction s)
  case Nil
  then show ?case by simp
next
  case (Cons c cs)
  from Cons.prems have c: "c < 0x110000" and cs: "is_str cs"
    by (simp_all add: is_str_def)
  from no_surrogate_pair_Cons [OF Cons.prems(2)]
  have nsp: "no_surrogate_pair cs" and nxt: "is_high c \<Longrightarrow> cs = [] \<or> \<not> is_low (hd cs)"
    by blast+
  have "scanstring (encode_char c @ (concat (map encode_char cs) @ 34 # rest)) =
        emit c (scanstring (concat (map encode_char cs) @ 34 # rest))"
    using c by (rule scanstring_encode_char) (simp add: encoded_not_pair cs nxt)
  also have "\<dots> = Some (c # cs, rest)"
    by (simp add: Cons.IH [OF cs nsp] emit_def)
  finally show ?case by simp
qed

lemma scanstring_key:
  "is_str k \<Longrightarrow> no_surrogate_pair k \<Longrightarrow>
   scanstring (tl (encode_basestring_ascii k) @ rest) = Some (k, rest)"
  by (simp add: encode_basestring_ascii_def scanstring_encoded)

section \<open>The codec: integers\<close>

lemma digits_all: "\<forall>c \<in> set (digits n). is_digit c"
proof (induction n rule: digits.induct)
  case (1 n)
  show ?case
  proof (cases "n < 10")
    case True
    then show ?thesis by (simp add: digits.simps [of n] is_digit_def)
  next
    case False
    with 1 have "\<forall>c \<in> set (digits (n div 10)). is_digit c" by simp
    moreover have "is_digit (48 + n mod 10)" by (simp add: is_digit_def)
    ultimately show ?thesis using False by (simp add: digits.simps [of n])
  qed
qed

lemma digits_nonempty: "digits n \<noteq> []"
  by (subst digits.simps) simp

lemma digits_zero: "digits 0 = [48]"
  by (simp add: digits.simps)

lemma hd_digits: "0 < n \<Longrightarrow> hd (digits n) \<noteq> 48"
proof (induction n rule: digits.induct)
  case (1 n)
  show ?case
  proof (cases "n < 10")
    case True
    with 1 show ?thesis by (simp add: digits.simps [of n])
  next
    case False
    with 1 have "hd (digits (n div 10)) \<noteq> 48" by simp
    with False show ?thesis
      by (simp add: digits.simps [of n] digits_nonempty)
  qed
qed

lemma int_of_digits_snoc: "int_of_digits (ds @ [d]) = int_of_digits ds * 10 + int (d - 48)"
  by (simp add: int_of_digits_def)

lemma int_of_digits_digits: "int_of_digits (digits n) = int n"
proof (induction n rule: digits.induct)
  case (1 n)
  show ?case
  proof (cases "n < 10")
    case True
    then show ?thesis by (simp add: digits.simps [of n] int_of_digits_def)
  next
    case False
    with 1 have "int_of_digits (digits (n div 10)) = int (n div 10)" by simp
    moreover have "int (n div 10) * 10 + int (n mod 10) = int n"
    proof -
      have "int n = int (n div 10 * 10 + n mod 10)" by simp
      also have "\<dots> = int (n div 10) * 10 + int (n mod 10)"
        by (simp only: of_nat_add of_nat_mult of_nat_numeral)
      finally show ?thesis by simp
    qed
    ultimately show ?thesis using False
      by (simp add: digits.simps [of n] int_of_digits_snoc)
  qed
qed

lemma match_fraction_none: "c \<noteq> 46 \<Longrightarrow> match_fraction (c # r) = ([], c # r)"
  by (simp add: match_fraction_def split: list.split)

lemma match_exponent_none: "c \<noteq> 101 \<Longrightarrow> c \<noteq> 69 \<Longrightarrow> match_exponent (c # r) = ([], c # r)"
  by (simp add: match_exponent_def)

lemma match_number_core:
  assumes d0: "is_digit d0" and dt: "\<forall>x \<in> set dt. is_digit x" and z: "d0 = 48 \<longrightarrow> dt = []"
    and c: "\<not> is_digit c" "c \<noteq> 46" "c \<noteq> 101" "c \<noteq> 69"
  shows "match_number (d0 # dt @ c # r) = Some (PInt (int_of_digits (d0 # dt)), c # r)"
    and "match_number (45 # d0 # dt @ c # r) = Some (PInt (- int_of_digits (d0 # dt)), c # r)"
proof -
  from d0 have n45: "d0 \<noteq> 45" by (auto simp: is_digit_def)
  have tw: "takeWhile is_digit (dt @ c # r) = dt" and dw: "dropWhile is_digit (dt @ c # r) = c # r"
    using dt c(1) by simp_all
  have rest: "(if d0 = 48 then ([d0], dt @ c # r)
               else (d0 # takeWhile is_digit (dt @ c # r), dropWhile is_digit (dt @ c # r))) =
              (d0 # dt, c # r)"
    using z by (simp add: tw dw)
  show "match_number (d0 # dt @ c # r) = Some (PInt (int_of_digits (d0 # dt)), c # r)"
    unfolding match_number_def
    by (simp only: list.case n45 if_False prod.case Let_def d0 not_True_eq_False rest
        match_fraction_none [OF c(2)] match_exponent_none [OF c(3,4)]) simp
  show "match_number (45 # d0 # dt @ c # r) = Some (PInt (- int_of_digits (d0 # dt)), c # r)"
    unfolding match_number_def
    by (simp only: list.case if_True refl prod.case Let_def d0 not_True_eq_False if_False rest
        match_fraction_none [OF c(2)] match_exponent_none [OF c(3,4)]) simp
qed

lemma match_number_digits:
  assumes "0 < n \<or> \<not> neg" "\<not> is_digit c" "c \<noteq> 46" "c \<noteq> 101" "c \<noteq> 69"
  shows "match_number ((if neg then [45] else []) @ digits n @ c # r) =
           Some (PInt (if neg then - int n else int n), c # r)"
proof -
  obtain d0 dt where ds: "digits n = d0 # dt"
    using digits_nonempty [of n] by (cases "digits n") auto
  with digits_all [of n] have d0: "is_digit d0" and dt: "\<forall>x \<in> set dt. is_digit x" by simp_all
  have z: "d0 = 48 \<longrightarrow> dt = []"
    using hd_digits [of n] digits_zero ds by (cases "n = 0") auto
  have v: "int_of_digits (d0 # dt) = int n"
    using int_of_digits_digits [of n] ds by simp
  from match_number_core [OF d0 dt z assms(2-5), of r] show ?thesis
    by (simp add: ds v)
qed

lemma match_number_int_repr:
  assumes "\<not> is_digit c" "c \<noteq> 46" "c \<noteq> 101" "c \<noteq> 69"
  shows "match_number (int_repr v @ c # r) = Some (PInt v, c # r)"
proof (cases "v < 0")
  case True
  with match_number_digits [of "nat (- v)" True c r] assms show ?thesis
    by (simp add: int_repr_def)
next
  case False
  with match_number_digits [of "nat v" False c r] assms show ?thesis
    by (simp add: int_repr_def)
qed

section \<open>The codec: members of an object\<close>

lemma skip_ws_simps [simp]:
  "skip_ws [] = []"
  "is_ws c \<Longrightarrow> skip_ws (c # r) = skip_ws r"
  "\<not> is_ws c \<Longrightarrow> skip_ws (c # r) = c # r"
  by (simp_all add: skip_ws_def)

lemma skip_ws_newline_indent: "skip_ws (newline_indent @ r) = skip_ws r"
  by (simp add: newline_indent_def is_ws_def eval_nat_numeral)

lemma int_repr_shape:
  "\<exists>c0 r0. int_repr v = c0 # r0 \<and>
     (is_digit c0 \<or> (c0 = 45 \<and> (\<exists>d r1. r0 = d # r1 \<and> is_digit d)))"
proof -
  have "\<exists>d r1. digits n = d # r1 \<and> is_digit d" for n
    using digits_nonempty [of n] digits_all [of n] by (cases "digits n") auto
  then show ?thesis
    by (simp add: int_repr_def) blast
qed

lemma match_constant_digit:
  "is_digit c \<Longrightarrow> match_constant constants (c # r) = None"
  by (simp add: constants_def str_def is_digit_def)

lemma match_constant_minus_digit:
  "is_digit d \<Longrightarrow> match_constant constants (45 # d # r) = None"
  by (simp add: constants_def str_def is_digit_def)

lemma scan_once_int_repr:
  assumes "c = 44 \<or> c = 10" and ok: "digits_ok lim v"
  shows "scan_once (Suc n) lim room (int_repr v @ c # t) = Inr (PInt v, c # t)"
proof -
  from assms(1) have c: "\<not> is_digit c" "c \<noteq> 46" "c \<noteq> 101" "c \<noteq> 69"
    by (auto simp: is_digit_def)
  from int_repr_shape [of v] obtain c0 r0 where
    shape: "int_repr v = c0 # r0"
      "is_digit c0 \<or> (c0 = 45 \<and> (\<exists>d r1. r0 = d # r1 \<and> is_digit d))" by blast
  then have first: "c0 \<noteq> 34" "c0 \<noteq> 123" "c0 \<noteq> 91"
    by (auto simp: is_digit_def)
  from shape have "match_constant constants (c0 # r0 @ c # t) = None"
    by (auto simp: match_constant_digit match_constant_minus_digit)
  moreover have "match_number (c0 # r0 @ c # t) = Some (PInt v, c # t)"
    using match_number_int_repr [OF c, of v t] shape(1) by simp
  ultimately show ?thesis
    using first ok by (simp add: shape(1) number_ok_def)
qed

lemma int_repr_not_ws: "skip_ws (int_repr v @ t) = int_repr v @ t"
proof -
  from int_repr_shape [of v] obtain c0 r0 where
    "int_repr v = c0 # r0" "is_digit c0 \<or> c0 = 45" by blast
  then show ?thesis by (auto simp: is_ws_def is_digit_def)
qed

lemma parse_members_step:
  assumes "is_str k" "no_surrogate_pair k" and c: "c = 44 \<or> c = 10" and ok: "digits_ok lim v"
  shows "parse_members (Suc (Suc n)) lim room (encode_member (k, v) @ c # t) acc =
     (case skip_ws (c # t) of
        [] \<Rightarrow> Inl JSONDecodeError
      | e # r4 \<Rightarrow>
          if e = 125 then Inr (PDict (AList.update k (PInt v) acc), r4)
          else if e = 44 then
            parse_members (Suc n) lim room (skip_ws r4) (AList.update k (PInt v) acc)
          else Inl JSONDecodeError)"
proof -
  have enc: "encode_member (k, v) @ c # t =
      34 # (concat (map encode_char k) @ 34 # (58 # 32 # (int_repr v @ c # t)))"
    by (simp add: encode_member_def encode_basestring_ascii_def)
  have key: "scanstring (concat (map encode_char k) @ 34 # (58 # 32 # (int_repr v @ c # t))) =
      Some (k, 58 # 32 # (int_repr v @ c # t))"
    using assms(1,2) by (rule scanstring_encoded)
  have colon: "skip_ws (58 # 32 # (int_repr v @ c # t)) = 58 # 32 # (int_repr v @ c # t)"
    by (simp add: is_ws_def)
  have sp: "skip_ws (32 # (int_repr v @ c # t)) = int_repr v @ c # t"
    by (simp add: is_ws_def int_repr_not_ws)
  have val: "scan_once (Suc n) lim room (int_repr v @ c # t) = Inr (PInt v, c # t)"
    using c ok by (rule scan_once_int_repr)
  show ?thesis
    unfolding enc
    by (simp only: parse_members.simps list.case key option.case prod.case sum.case colon sp val
        refl if_False not_True_eq_False simp_thms)
qed

lemma encode_members_Cons:
  "encode_members (kv # rest) =
     encode_member kv @ (if rest = [] then [] else 44 # newline_indent @ encode_members rest)"
  by (cases rest) simp_all

lemma encode_member_quote: "\<exists>r. encode_member kv = 34 # r"
  by (simp add: encode_member_def encode_basestring_ascii_def)

lemma encode_members_quote: "d \<noteq> [] \<Longrightarrow> \<exists>r. encode_members d @ t = 34 # r"
proof (cases d)
  case (Cons kv rest)
  from encode_member_quote [of kv] obtain r where "encode_member kv = 34 # r" ..
  with Cons show ?thesis by (simp add: encode_members_Cons)
qed simp

lemma skip_ws_encode_members: "d \<noteq> [] \<Longrightarrow> skip_ws (encode_members d @ t) = encode_members d @ t"
proof -
  assume "d \<noteq> []"
  from encode_members_quote [OF this, of t] obtain r where "encode_members d @ t = 34 # r" ..
  then show ?thesis by (simp add: is_ws_def)
qed

lemma parse_members_encoded:
  assumes "\<forall>k \<in> fst ` set d. is_str k \<and> no_surrogate_pair k" "d \<noteq> []" "length d < n"
    and "\<forall>v \<in> snd ` set d. digits_ok lim v"
  shows "parse_members n lim room (encode_members d @ 10 # 125 # rest) acc =
     Inr (PDict (foldl (\<lambda>a (k, v). AList.update k (PInt v) a) acc d), rest)"
  using assms
proof (induction d arbitrary: n acc)
  case Nil
  then show ?case by simp
next
  case (Cons kv d')
  obtain k v where kv: "kv = (k, v)" by (cases kv)
  from Cons.prems(3) obtain m where n: "n = Suc (Suc m)" and m: "length d' < Suc m"
    by (cases n; cases "n - 1") auto
  from Cons.prems(1) kv have k: "is_str k" "no_surrogate_pair k" by simp_all
  from Cons.prems(4) kv have v: "digits_ok lim v" by simp
  show ?case
  proof (cases "d' = []")
    case True
    have "parse_members (Suc (Suc m)) lim room (encode_member (k, v) @ 10 # (125 # rest)) acc =
          Inr (PDict (AList.update k (PInt v) acc), rest)"
      by (subst parse_members_step [OF k disjI2 [OF refl] v]) (simp add: is_ws_def)
    with True show ?thesis by (simp add: kv n)
  next
    case False
    have keys: "\<forall>k \<in> fst ` set d'. is_str k \<and> no_surrogate_pair k"
      using Cons.prems(1) by simp
    have vals: "\<forall>v \<in> snd ` set d'. digits_ok lim v"
      using Cons.prems(4) by simp
    have "parse_members (Suc (Suc m)) lim room
            (encode_member (k, v) @ 44 # (newline_indent @ encode_members d' @ 10 # 125 # rest)) acc =
          parse_members (Suc m) lim room (encode_members d' @ 10 # 125 # rest)
            (AList.update k (PInt v) acc)"
      by (subst parse_members_step [OF k disjI1 [OF refl] v])
        (simp add: is_ws_def skip_ws_newline_indent skip_ws_encode_members [OF False])
    also have "\<dots> = Inr (PDict (foldl (\<lambda>a (k, v). AList.update k (PInt v) a)
                                (AList.update k (PInt v) acc) d'), rest)"
      using keys False m vals by (rule Cons.IH)
    finally show ?thesis using False by (simp add: kv n encode_members_Cons)
  qed
qed

lemma update_fresh_key: "k \<notin> fst ` set d \<Longrightarrow> AList.update k v d = d @ [(k, v)]"
  by (induction d) auto

lemma foldl_update_distinct:
  "distinct (map fst acc @ map fst d) \<Longrightarrow>
   foldl (\<lambda>a (k, v). AList.update k (PInt v) a) acc d = acc @ map (\<lambda>(k, q). (k, PInt q)) d"
proof (induction d arbitrary: acc)
  case Nil
  then show ?case by simp
next
  case (Cons kv d)
  obtain k v where kv: "kv = (k, v)" by (cases kv)
  from Cons.prems kv have fresh_key: "k \<notin> fst ` set acc"
    and rest: "distinct (map fst (acc @ [(k, PInt v)]) @ map fst d)"
    by auto
  from rest have "foldl (\<lambda>a (k, v). AList.update k (PInt v) a) (acc @ [(k, PInt v)]) d =
      (acc @ [(k, PInt v)]) @ map (\<lambda>(k, q). (k, PInt q)) d"
    by (intro Cons.IH) simp
  with fresh_key show ?case by (simp add: kv update_fresh_key)
qed

lemma scan_once_json_dumps:
  assumes "\<forall>k \<in> fst ` set d. is_str k \<and> no_surrogate_pair k" "dict_ok d" "length d < n"
    and "\<forall>v \<in> snd ` set d. digits_ok lim v"
  shows "scan_once (Suc n) lim (Suc room) (json_dumps d) = Inr (dict_value d, [])"
proof (cases "d = []")
  case True
  then show ?thesis by (simp add: json_dumps_def dict_value_def is_ws_def)
next
  case False
  from encode_members_quote [OF False, of "[10, 125]"] obtain r
    where r: "encode_members d @ [10, 125] = 34 # r" ..
  have "scan_once (Suc n) lim (Suc room) (123 # (newline_indent @ encode_members d @ [10, 125])) =
        parse_members n lim room (encode_members d @ [10, 125]) []"
    by (simp add: skip_ws_newline_indent r is_ws_def)
  also have "\<dots> = Inr (PDict (foldl (\<lambda>a (k, v). AList.update k (PInt v) a) [] d), [])"
    using assms(1) False assms(3,4) by (rule parse_members_encoded)
  also have "foldl (\<lambda>a (k, v). AList.update k (PInt v) a) [] d = map (\<lambda>(k, q). (k, PInt q)) d"
    using foldl_update_distinct [of "[]" d] assms(2) by (simp add: dict_ok_def)
  finally show ?thesis using False by (simp add: json_dumps_def dict_value_def)
qed

lemma length_encode_members: "length d \<le> length (encode_members d)"
proof (induction d)
  case Nil
  then show ?case by simp
next
  case (Cons kv d)
  from encode_member_quote [of kv] have "1 \<le> length (encode_member kv)" by auto
  with Cons show ?case by (simp add: encode_members_Cons)
qed

lemma json_loads_dumps:
  assumes "\<forall>k \<in> fst ` set d. is_str k \<and> no_surrogate_pair k" "dict_ok d"
    and "\<forall>v \<in> snd ` set d. digits_ok (int_max_str_digits ip) v" "0 < json_depth ip"
  shows "json_loads ip (json_dumps d) = Inr (dict_value d)"
proof -
  from assms(4) obtain room where room: "json_depth ip = Suc room"
    by (cases "json_depth ip") auto
  have "length d < 2 * length (json_dumps d)"
    using length_encode_members [of d] by (simp add: json_dumps_def)
  with assms(1-3) have "scan_once (Suc (2 * length (json_dumps d))) (int_max_str_digits ip)
      (Suc room) (json_dumps d) = Inr (dict_value d, [])"
    by (intro scan_once_json_dumps)
  moreover have "skip_ws (json_dumps d) = json_dumps d"
    by (simp add: json_dumps_def is_ws_def)
  ultimately show ?thesis by (simp add: json_loads_def room)
qed

text \<open>When every quantity can be converted, the file receives the whole text.\<close>

lemma write_members_ok:
  assumes "\<forall>v \<in> snd ` set d. digits_ok lim v" "d \<noteq> []"
  shows "write_members lim first d =
     ((if first then [] else 44 # newline_indent) @ encode_members d, None)"
  using assms
proof (induction d arbitrary: first)
  case Nil
  then show ?case by simp
next
  case (Cons kv d)
  obtain k v where kv: "kv = (k, v)" by (cases kv)
  show ?case
  proof (cases "d = []")
    case True
    with Cons.prems show ?thesis by (simp add: kv encode_member_def)
  next
    case False
    with Cons.prems have "write_members lim False d = (44 # newline_indent @ encode_members d, None)"
      using Cons.IH [of False] by simp
    with Cons.prems False show ?thesis
      by (simp add: kv encode_member_def encode_members_Cons)
  qed
qed

lemma json_dump_text_ok:
  assumes "\<forall>v \<in> snd ` set d. digits_ok lim v"
  shows "json_dump_text lim d = (json_dumps d, None)"
proof (cases "d = []")
  case True
  then show ?thesis by (simp add: json_dump_text_def json_dumps_def)
next
  case False
  with assms show ?thesis
    by (simp add: json_dump_text_def json_dumps_def write_members_ok)
qed

text \<open>
  Otherwise \<^verbatim>\<open>json.dump\<close> raises \<^verbatim>\<open>ValueError\<close>, and conversely: the exception is the only
  one the encoder has for such a map.
\<close>

lemma write_members_error:
  "snd (write_members lim first d) =
     (if list_all (\<lambda>kv. digits_ok lim (snd kv)) d then None else Some ValueError)"
proof (induction d arbitrary: first)
  case Nil
  then show ?case by simp
next
  case (Cons kv d)
  obtain k v where kv: "kv = (k, v)" by (cases kv)
  obtain t e where w: "write_members lim False d = (t, e)"
    by (cases "write_members lim False d")
  with Cons.IH [of False]
  have "e = (if list_all (\<lambda>kv. digits_ok lim (snd kv)) d then None else Some ValueError)"
    by simp
  then show ?case by (simp add: kv w Let_def)
qed

lemma json_dump_text_error:
  "snd (json_dump_text lim d) =
     (if list_all (\<lambda>kv. digits_ok lim (snd kv)) d then None else Some ValueError)"
proof (cases "d = []")
  case True
  then show ?thesis by (simp add: json_dump_text_def)
next
  case False
  obtain t e where w: "write_members lim True d = (t, e)" by (cases "write_members lim True d")
  with write_members_error [of lim True d]
  have e: "e = (if list_all (\<lambda>kv. digits_ok lim (snd kv)) d then None else Some ValueError)"
    by simp
  from False show ?thesis by (simp add: json_dump_text_def w e)
qed


section \<open>The scanner consumes its input and never lacks fuel\<close>

lemma emit_Some: "emit c r = Some (x, rest) \<Longrightarrow> \<exists>x'. r = Some (x', rest)"
  by (auto simp: emit_def split: option.splits)

lemma surrogate_pair_length:
  "surrogate_pair hi s = Some (m, rest) \<Longrightarrow> length rest < length s"
  by (auto simp: surrogate_pair_def split: list.splits if_splits option.splits)

lemma unescape_length: "unescape s = Some (x, rest) \<Longrightarrow> length rest < length s"
  by (auto simp: unescape_def split: list.splits if_splits option.splits
      dest: surrogate_pair_length)

lemma scanstring_length: "scanstring s = Some (x, rest) \<Longrightarrow> length rest < length s"
proof (induction s arbitrary: x rule: scanstring.induct)
  case 1
  then show ?case by simp
next
  case (2 c cs)
  show ?case
  proof (cases "c = 34 \<or> c < 32")
    case True
    with "2.prems" show ?thesis by (auto split: if_splits)
  next
    case False
    show ?thesis
    proof (cases "c = 92")
      case plain: False
      with False "2.prems" obtain x' where "scanstring cs = Some (x', rest)"
        by (auto dest: emit_Some)
      with "2.IH"(1) [of x'] False plain show ?thesis by auto
    next
      case True
      with False "2.prems" obtain y r x' where
        u: "unescape cs = Some (y, r)" and "scanstring r = Some (x', rest)"
        by (auto split: option.splits dest: emit_Some)
      with "2.IH"(2) [of "(y, r)" y r x'] False True have "length rest < length r" by auto
      with unescape_length [OF u] show ?thesis by simp
    qed
  qed
qed

lemma skip_ws_length: "length (skip_ws s) \<le> length s"
  by (simp add: skip_ws_def length_dropWhile_le)

lemma skip_ws_Cons_length: "skip_ws s = c # r \<Longrightarrow> length r < length s"
  using skip_ws_length [of s] by simp

lemma match_fraction_length: "match_fraction s = (f, r) \<Longrightarrow> length r \<le> length s"
  by (auto simp: match_fraction_def split: list.splits if_splits
      intro: le_trans [OF length_dropWhile_le])

lemma match_exponent_length: "match_exponent s = (e, r) \<Longrightarrow> length r \<le> length s"
  by (auto simp: match_exponent_def Let_def split: list.splits if_splits prod.splits
      intro: le_trans [OF length_dropWhile_le])

lemma match_number_length: "match_number s = Some (v, rest) \<Longrightarrow> length rest < length s"
proof -
  assume a: "match_number s = Some (v, rest)"
  obtain sign s1 where s1: "(case s of [] \<Rightarrow> ([], s) | c # r \<Rightarrow> if c = 45 then ([c], r) else ([], s)) = (sign, s1)"
    by (cases "(case s of [] \<Rightarrow> ([], s) | c # r \<Rightarrow> if c = 45 then ([c], r) else ([]::pystr, s))")
  then have l1: "length s1 \<le> length s" by (auto split: list.splits if_splits)
  from a s1 obtain c r where cr: "s1 = c # r" "is_digit c"
    by (cases s1) (auto simp: match_number_def split: if_splits)
  obtain ip s2 where s2: "(if c = 48 then ([c], r)
      else (c # takeWhile is_digit r, dropWhile is_digit r)) = (ip, s2)"
    by (cases "(if c = 48 then ([c], r) else (c # takeWhile is_digit r, dropWhile is_digit r))")
  then have l2: "length s2 \<le> length r"
    by (auto split: if_splits simp: length_dropWhile_le)
  obtain frac s3 where s3: "match_fraction s2 = (frac, s3)" by (cases "match_fraction s2")
  obtain ex s4 where s4: "match_exponent s3 = (ex, s4)" by (cases "match_exponent s3")
  from a s1 cr s2 s3 s4 have "rest = s4"
    by (auto simp: match_number_def split: if_splits)
  with match_fraction_length [OF s3] match_exponent_length [OF s4] l1 l2 cr show ?thesis
    by simp
qed

lemma strip_prefix_length: "strip_prefix p s = Some r \<Longrightarrow> length r + length p = length s"
  by (induction p s rule: strip_prefix.induct) (auto split: if_splits)

lemma match_constant_length:
  "match_constant constants s = Some (v, rest) \<Longrightarrow> length rest < length s"
  by (auto simp: constants_def str_def split: option.splits dest!: strip_prefix_length)

lemma scan_once_length:
  "scan_once n lim room s = Inr (v, rest) \<Longrightarrow> length rest < length s"
  "parse_members n lim room s d = Inr (v, rest) \<Longrightarrow> length rest < length s"
  "parse_elems n lim room s acc = Inr (v, rest) \<Longrightarrow> length rest < length s"
proof (induction n lim room s and n lim room s d and n lim room s acc
    arbitrary: v rest and v rest and v rest
    rule: scan_once_parse_members_parse_elems.induct)
  case (1 lim room s)
  then show ?case by simp
next
  case (2 n lim room s)
  from "2.prems" obtain c r where s: "s = c # r" by (cases s) auto
  consider (string) "c = 34" | (object) "c = 123" | (array) "c = 91"
    | (other) "c \<noteq> 34" "c \<noteq> 123" "c \<noteq> 91" by blast
  then show ?case
  proof cases
    case string
    with "2.prems" s show ?thesis
      by (auto split: option.splits dest: scanstring_length)
  next
    case object
    with "2.prems" s obtain room' where room: "room = Suc room'"
      by (cases room) auto
    with "2.prems" s object obtain c' r' where ws: "skip_ws r = c' # r'"
      by (cases "skip_ws r") auto
    show ?thesis
    proof (cases "c' = 125")
      case True
      with "2.prems" s object room ws skip_ws_Cons_length [OF ws] show ?thesis by auto
    next
      case False
      with "2.prems" s object room ws
      have "parse_members n lim room' (c' # r') [] = Inr (v, rest)" by simp
      with "2.IH"(1) [of c r room' c' r' v rest] s object room ws False
      have "length rest < length (c' # r')" by simp
      with skip_ws_length [of r] ws s show ?thesis by simp
    qed
  next
    case array
    with "2.prems" s obtain room' where room: "room = Suc room'"
      by (cases room) auto
    with "2.prems" s array obtain c' r' where ws: "skip_ws r = c' # r'"
      by (cases "skip_ws r") auto
    show ?thesis
    proof (cases "c' = 93")
      case True
      with "2.prems" s array room ws skip_ws_Cons_length [OF ws] show ?thesis by auto
    next
      case False
      with "2.prems" s array room ws
      have "parse_elems n lim room' (c' # r') [] = Inr (v, rest)" by simp
      with "2.IH"(2) [of c r room' c' r' v rest] s array room ws False
      have "length rest < length (c' # r')" by simp
      with skip_ws_length [of r] ws s show ?thesis by simp
    qed
  next
    case other
    with "2.prems" s show ?thesis
      by (auto split: option.splits if_splits dest: match_constant_length match_number_length)
  qed
next
  case (3 lim room s d)
  then show ?case by simp
next
  case (4 n lim room s d)
  from "4.prems" obtain q r where s: "s = q # r" by (cases s) auto
  with "4.prems" have q: "\<not> q \<noteq> 34" by (auto split: if_splits)
  with "4.prems" s obtain key r1 where k: "scanstring r = Some (key, r1)"
    by (cases "scanstring r") auto
  with "4.prems" s q obtain c r2 where w1: "skip_ws r1 = c # r2"
    by (cases "skip_ws r1") auto
  with "4.prems" s q k have c: "\<not> c \<noteq> 58" by (auto split: if_splits)
  with "4.prems" s q k w1 obtain v' r3 where
    val: "scan_once n lim room (skip_ws r2) = Inr (v', r3)"
    by (cases "scan_once n lim room (skip_ws r2)") auto
  with "4.prems" s q k w1 c obtain e r4 where w2: "skip_ws r3 = e # r4"
    by (cases "skip_ws r3") auto
  have l3: "length r3 < length s"
    using "4.IH"(1) [of q r "(key, r1)" key r1 c r2 v' r3] s q k w1 c val skip_ws_length [of r2]
      skip_ws_Cons_length [OF w1] scanstring_length [OF k] s
    by simp
  show ?case
  proof (cases "e = 125")
    case True
    with "4.prems" s q k w1 c val w2 have "rest = r4" by simp
    with skip_ws_Cons_length [OF w2] l3 show ?thesis by simp
  next
    case False
    with "4.prems" s q k w1 c val w2 have e: "e = 44"
      and rec: "parse_members n lim room (skip_ws r4) (AList.update key v' d) = Inr (v, rest)"
      by (auto split: if_splits)
    from "4.IH"(2) [of q r "(key, r1)" key r1 c r2 "(v', r3)" v' r3 e r4 v rest]
      s q k w1 c val w2 False e rec
    have "length rest < length (skip_ws r4)" by simp
    with skip_ws_length [of r4] skip_ws_Cons_length [OF w2] l3 show ?thesis by simp
  qed
next
  case (5 lim room s acc)
  then show ?case by simp
next
  case (6 n lim room s acc)
  from "6.prems" obtain v' r where val: "scan_once n lim room s = Inr (v', r)"
    by (cases "scan_once n lim room s") auto
  with "6.prems" obtain e r' where w: "skip_ws r = e # r'"
    by (cases "skip_ws r") auto
  have l: "length r < length s" using "6.IH"(1) [of v' r] val by simp
  show ?case
  proof (cases "e = 93")
    case True
    with "6.prems" val w have "rest = r'" by simp
    with skip_ws_Cons_length [OF w] l show ?thesis by simp
  next
    case False
    with "6.prems" val w have e: "e = 44"
      and rec: "parse_elems n lim room (skip_ws r') (acc @ [v']) = Inr (v, rest)"
      by (auto split: if_splits)
    from "6.IH"(2) [of "(v', r)" v' r e r' v rest] val w False e rec
    have "length rest < length (skip_ws r')" by simp
    with skip_ws_length [of r'] skip_ws_Cons_length [OF w] l show ?thesis by simp
  qed
qed

lemma scan_once_Suc_cong:
  assumes "\<And>x room'. length x < length s \<Longrightarrow>
      parse_members n lim room' x [] = parse_members m lim room' x []"
    and "\<And>x room'. length x < length s \<Longrightarrow>
      parse_elems n lim room' x [] = parse_elems m lim room' x []"
  shows "scan_once (Suc n) lim room s = scan_once (Suc m) lim room s"
proof (cases s)
  case Nil
  then show ?thesis by simp
next
  case (Cons c r)
  show ?thesis
  proof (cases room)
    case 0
    with Cons show ?thesis by simp
  next
    case (Suc room')
    show ?thesis
    proof (cases "skip_ws r")
      case Nil
      with Cons Suc show ?thesis by simp
    next
      case ws: (Cons c' r')
      from skip_ws_Cons_length [OF ws] Cons have "length (c' # r') < length s"
        using skip_ws_length [of r] ws by simp
      with assms [of "c' # r'" room'] Cons Suc ws show ?thesis by simp
    qed
  qed
qed

lemma parse_members_Suc_cong:
  assumes "\<And>x. length x < length s \<Longrightarrow> scan_once n lim room x = scan_once m lim room x"
    and "\<And>x d'. length x < length s \<Longrightarrow>
      parse_members n lim room x d' = parse_members m lim room x d'"
  shows "parse_members (Suc n) lim room s d = parse_members (Suc m) lim room s d"
proof (cases s)
  case Nil
  then show ?thesis by simp
next
  case (Cons q r)
  show ?thesis
  proof (cases "scanstring r")
    case None
    with Cons show ?thesis by simp
  next
    case (Some kr)
    obtain key r1 where kr: "kr = (key, r1)" by (cases kr)
    from Some kr have l1: "length r1 < length r" by (auto dest: scanstring_length)
    show ?thesis
    proof (cases "skip_ws r1")
      case Nil
      with Cons Some kr show ?thesis by simp
    next
      case w1: (Cons c r2)
      from skip_ws_Cons_length [OF w1] l1 skip_ws_length [of r2] Cons
      have l2: "length (skip_ws r2) < length s" by simp
      have val: "scan_once n lim room (skip_ws r2) = scan_once m lim room (skip_ws r2)"
        using l2 by (rule assms(1))
      show ?thesis
      proof (cases "scan_once m lim room (skip_ws r2)")
        case (Inl e)
        with Cons Some kr w1 val show ?thesis by simp
      next
        case v: (Inr vr)
        obtain v' r3 where vr: "vr = (v', r3)" by (cases vr)
        from v vr have l3: "length r3 < length (skip_ws r2)"
          by (auto dest: scan_once_length(1))
        show ?thesis
        proof (cases "skip_ws r3")
          case Nil
          with Cons Some kr w1 val v vr show ?thesis by simp
        next
          case w2: (Cons e r4)
          from skip_ws_Cons_length [OF w2] l3 l2 skip_ws_length [of r4]
          have "length (skip_ws r4) < length s" by simp
          from assms(2) [OF this] Cons Some kr w1 val v vr w2 show ?thesis by simp
        qed
      qed
    qed
  qed
qed

lemma parse_elems_Suc_cong:
  assumes "scan_once n lim room s = scan_once m lim room s"
    and "\<And>x a. length x < length s \<Longrightarrow>
      parse_elems n lim room x a = parse_elems m lim room x a"
  shows "parse_elems (Suc n) lim room s acc = parse_elems (Suc m) lim room s acc"
proof (cases "scan_once m lim room s")
  case (Inl e)
  with assms(1) show ?thesis by simp
next
  case (Inr vr)
  obtain v r where vr: "vr = (v, r)" by (cases vr)
  from Inr vr have l: "length r < length s" by (auto dest: scan_once_length(1))
  show ?thesis
  proof (cases "skip_ws r")
    case Nil
    with Inr vr assms(1) show ?thesis by simp
  next
    case w: (Cons e r')
    from skip_ws_Cons_length [OF w] l skip_ws_length [of r']
    have "length (skip_ws r') < length s" by simp
    from assms(2) [OF this] Inr vr assms(1) w show ?thesis by simp
  qed
qed

lemma fuel_step:
  "(\<forall>room s. 2 * length s < n \<longrightarrow> scan_once (Suc n) lim room s = scan_once n lim room s) \<and>
   (\<forall>room s d. 2 * length s < n \<longrightarrow>
      parse_members (Suc n) lim room s d = parse_members n lim room s d) \<and>
   (\<forall>room s acc. 2 * length s + 1 < n \<longrightarrow>
      parse_elems (Suc n) lim room s acc = parse_elems n lim room s acc)"
proof (induction n)
  case 0
  then show ?case by simp
next
  case (Suc n)
  then have scan: "\<And>room s. 2 * length s < n \<Longrightarrow>
      scan_once (Suc n) lim room s = scan_once n lim room s"
    and mem: "\<And>room s d. 2 * length s < n \<Longrightarrow>
      parse_members (Suc n) lim room s d = parse_members n lim room s d"
    and el: "\<And>room s acc. 2 * length s + 1 < n \<Longrightarrow>
      parse_elems (Suc n) lim room s acc = parse_elems n lim room s acc"
    by blast+
  show ?case
  proof (intro conjI allI impI)
    fix room :: nat and s :: pystr
    assume "2 * length s < Suc n"
    then show "scan_once (Suc (Suc n)) lim room s = scan_once (Suc n) lim room s"
      by (intro scan_once_Suc_cong mem el) simp_all
  next
    fix room :: nat and s :: pystr and d :: "(pystr \<times> pyval) list"
    assume "2 * length s < Suc n"
    then show "parse_members (Suc (Suc n)) lim room s d = parse_members (Suc n) lim room s d"
      by (intro parse_members_Suc_cong scan mem) simp_all
  next
    fix room :: nat and s :: pystr and acc :: "pyval list"
    assume "2 * length s + 1 < Suc n"
    then show "parse_elems (Suc (Suc n)) lim room s acc = parse_elems (Suc n) lim room s acc"
      by (intro parse_elems_Suc_cong scan el) simp_all
  qed
qed

lemma scan_once_fuel:
  assumes "2 * length s < n"
  shows "scan_once n lim room s = scan_once (2 * length s + 1) lim room s"
proof -
  have "scan_once (2 * length s + 1 + k) lim room s = scan_once (2 * length s + 1) lim room s"
    for k
  proof (induction k)
    case 0
    then show ?case by simp
  next
    case (Suc k)
    have "scan_once (Suc (2 * length s + 1 + k)) lim room s =
        scan_once (2 * length s + 1 + k) lim room s"
      using fuel_step [of "2 * length s + 1 + k" lim] by simp
    with Suc show ?case by simp
  qed
  from this [of "n - (2 * length s + 1)"] assms show ?thesis by simp
qed

lemma json_loads_fuel:
  assumes "2 * length s < n"
  shows "json_loads ip s =
     (case scan_once n (int_max_str_digits ip) (json_depth ip) (skip_ws s) of
        Inl e \<Rightarrow> Inl e
      | Inr (v, rest) \<Rightarrow> if skip_ws rest = [] then Inr v else Inl JSONDecodeError)"
proof -
  have "2 * length (skip_ws s) < n" "2 * length (skip_ws s) < 2 * length s + 1"
    using assms skip_ws_length [of s] by simp_all
  then have "scan_once n (int_max_str_digits ip) (json_depth ip) (skip_ws s) =
      scan_once (2 * length s + 1) (int_max_str_digits ip) (json_depth ip) (skip_ws s)"
    using scan_once_fuel [of "skip_ws s"] by metis
  then show ?thesis by (simp add: json_loads_def)
qed
section \<open>The exceptions of the decoder\<close>

text \<open>The decoder raises nothing but its three exceptions; none of them is an \<^verbatim>\<open>OSError\<close>.\<close>

lemma scan_once_errors:
  "scan_once n lim room s = Inl e \<Longrightarrow> decoder_error e"
  "parse_members n lim room s d = Inl e \<Longrightarrow> decoder_error e"
  "parse_elems n lim room s acc = Inl e \<Longrightarrow> decoder_error e"
proof (induction n lim room s and n lim room s d and n lim room s acc
    rule: scan_once_parse_members_parse_elems.induct)
  case (1 lim room s)
  then show ?case by (simp add: decoder_error_def)
next
  case (2 n lim room s)
  show ?case
  proof (cases s)
    case Nil
    with "2.prems" show ?thesis by (simp add: decoder_error_def)
  next
    case (Cons c r)
    consider (string) "c = 34" | (object) "c = 123" | (array) "c = 91"
      | (other) "c \<noteq> 34" "c \<noteq> 123" "c \<noteq> 91" by blast
    then show ?thesis
    proof cases
      case string
      with "2.prems" Cons show ?thesis
        by (auto simp: decoder_error_def split: option.splits)
    next
      case object
      show ?thesis
      proof (cases room)
        case 0
        with "2.prems" Cons object show ?thesis by (simp add: decoder_error_def)
      next
        case (Suc room')
        show ?thesis
        proof (cases "skip_ws r")
          case Nil
          with "2.prems" Cons object Suc show ?thesis by (simp add: decoder_error_def)
        next
          case ws: (Cons c' r')
          show ?thesis
          proof (cases "c' = 125")
            case True
            with "2.prems" Cons object Suc ws show ?thesis by simp
          next
            case False
            with "2.prems" Cons object Suc ws
            have "parse_members n lim room' (c' # r') [] = Inl e" by simp
            with "2.IH"(1) [of c r room' c' r'] Cons object Suc ws False show ?thesis by simp
          qed
        qed
      qed
    next
      case array
      show ?thesis
      proof (cases room)
        case 0
        with "2.prems" Cons array show ?thesis by (simp add: decoder_error_def)
      next
        case (Suc room')
        show ?thesis
        proof (cases "skip_ws r")
          case Nil
          with "2.prems" Cons array Suc show ?thesis by (simp add: decoder_error_def)
        next
          case ws: (Cons c' r')
          show ?thesis
          proof (cases "c' = 93")
            case True
            with "2.prems" Cons array Suc ws show ?thesis by simp
          next
            case False
            with "2.prems" Cons array Suc ws
            have "parse_elems n lim room' (c' # r') [] = Inl e" by simp
            with "2.IH"(2) [of c r room' c' r'] Cons array Suc ws False show ?thesis by simp
          qed
        qed
      qed
    next
      case other
      with "2.prems" Cons show ?thesis
        by (auto simp: decoder_error_def split: option.splits if_splits)
    qed
  qed
next
  case (3 lim room s d)
  then show ?case by (simp add: decoder_error_def)
next
  case (4 n lim room s d)
  show ?case
  proof (cases s)
    case Nil
    with "4.prems" show ?thesis by (simp add: decoder_error_def)
  next
    case (Cons q r)
    show ?thesis
    proof (cases "q = 34")
      case False
      with "4.prems" Cons show ?thesis by (simp add: decoder_error_def)
    next
      case q: True
      show ?thesis
      proof (cases "scanstring r")
        case None
        with "4.prems" Cons q show ?thesis by (simp add: decoder_error_def)
      next
        case (Some kr)
        obtain key r1 where kr: "kr = (key, r1)" by (cases kr)
        show ?thesis
        proof (cases "skip_ws r1")
          case Nil
          with "4.prems" Cons q Some kr show ?thesis by (simp add: decoder_error_def)
        next
          case w1: (Cons c r2)
          show ?thesis
          proof (cases "c = 58")
            case False
            with "4.prems" Cons q Some kr w1 show ?thesis by (simp add: decoder_error_def)
          next
            case c: True
            show ?thesis
            proof (cases "scan_once n lim room (skip_ws r2)")
              case (Inl e')
              with "4.prems" Cons q Some kr w1 c have "e' = e" by simp
              with "4.IH"(1) [of q r "(key, r1)" key r1 c r2] Cons q Some kr w1 c Inl
              show ?thesis by simp
            next
              case (Inr vr)
              obtain v' r3 where vr: "vr = (v', r3)" by (cases vr)
              show ?thesis
              proof (cases "skip_ws r3")
                case Nil
                with "4.prems" Cons q Some kr w1 c Inr vr show ?thesis
                  by (simp add: decoder_error_def)
              next
                case w2: (Cons x r4)
                show ?thesis
                proof (cases "x = 44")
                  case False
                  with "4.prems" Cons q Some kr w1 c Inr vr w2 show ?thesis
                    by (simp add: decoder_error_def split: if_splits)
                next
                  case True
                  with "4.prems" Cons q Some kr w1 c Inr vr w2
                  have "parse_members n lim room (skip_ws r4) (AList.update key v' d) = Inl e"
                    by simp
                  with "4.IH"(2) [of q r "(key, r1)" key r1 c r2 "(v', r3)" v' r3 x r4]
                    Cons q Some kr w1 c Inr vr w2 True
                  show ?thesis by simp
                qed
              qed
            qed
          qed
        qed
      qed
    qed
  qed
next
  case (5 lim room s acc)
  then show ?case by (simp add: decoder_error_def)
next
  case (6 n lim room s acc)
  show ?case
  proof (cases "scan_once n lim room s")
    case (Inl e')
    with "6.prems" have "e' = e" by simp
    with "6.IH"(1) Inl show ?thesis by simp
  next
    case (Inr vr)
    obtain v' r where vr: "vr = (v', r)" by (cases vr)
    show ?thesis
    proof (cases "skip_ws r")
      case Nil
      with "6.prems" Inr vr show ?thesis by (simp add: decoder_error_def)
    next
      case w: (Cons x r')
      show ?thesis
      proof (cases "x = 44")
        case False
        with "6.prems" Inr vr w show ?thesis
          by (simp add: decoder_error_def split: if_splits)
      next
        case True
        with "6.prems" Inr vr w
        have "parse_elems n lim room (skip_ws r') (acc @ [v']) = Inl e" by simp
        with "6.IH"(2) [of "(v', r)" v' r x r'] Inr vr w True show ?thesis by simp
      qed
    qed
  qed
qed

lemma json_loads_errors:
  assumes "json_loads ip s = Inl e"
  shows "decoder_error e"
proof -
  define res where
    "res = scan_once (2 * length s + 1) (int_max_str_digits ip) (json_depth ip) (skip_ws s)"
  from assms have *: "(case res of Inl e \<Rightarrow> Inl e
      | Inr (v, rest) \<Rightarrow> if skip_ws rest = [] then Inr v else Inl JSONDecodeError) = Inl e"
    unfolding json_loads_def res_def .
  show ?thesis
  proof (cases res)
    case (Inl e')
    with * have "e' = e" by simp
    with Inl scan_once_errors(1) [of _ _ _ _ e] show ?thesis unfolding res_def by blast
  next
    case (Inr vr)
    with * show ?thesis
      by (cases vr) (simp add: decoder_error_def split: if_splits)
  qed
qed

section \<open>Evaluating the codec on a given text\<close>

lemma fuel_numeral:
  "scan_once (numeral k) lim room s = scan_once (Suc (pred_numeral k)) lim room s"
  "parse_members (numeral k) lim room s d = parse_members (Suc (pred_numeral k)) lim room s d"
  "parse_elems (numeral k) lim room s acc = parse_elems (Suc (pred_numeral k)) lim room s acc"
  by (simp_all only: numeral_eq_Suc)

lemma fuel_one:
  "scan_once 1 lim room s = scan_once (Suc 0) lim room s"
  "parse_members 1 lim room s d = parse_members (Suc 0) lim room s d"
  "parse_elems 1 lim room s acc = parse_elems (Suc 0) lim room s acc"
  by (simp_all only: One_nat_def)

lemma room_numeral:
  "(case numeral k of 0 \<Rightarrow> a | Suc room' \<Rightarrow> f room') = f (pred_numeral k)"
  by (simp add: numeral_eq_Suc)

lemmas json_eval =
  json_loads_def fuel_numeral fuel_one room_numeral skip_ws_def is_ws_def str_def constants_def
  match_number_def match_fraction_def match_exponent_def is_digit_def int_of_digits_def
  unescape_def backslash_def hex4_val_def hexval_def surrogate_pair_def emit_def number_ok_def

lemma newline_indent_eq: "newline_indent = [10, 32, 32, 32, 32]"
  by (simp add: newline_indent_def eval_nat_numeral)

lemma digits_small: "n < 10 \<Longrightarrow> digits n = [48 + n]"
  by (simp add: digits.simps)

lemma digits_large: "10 \<le> n \<Longrightarrow> digits n = digits (n div 10) @ [48 + n mod 10]"
  by (subst digits.simps) simp

lemmas dump_eval =
  json_dumps_def encode_member_def encode_basestring_ascii_def encode_char_def u_escape_def
  hex_digit_def int_repr_def newline_indent_eq digits_small digits_large

text \<open>A quantity below 10000 has at most four digits, within every limit that can be set.\<close>

lemma length_digits_le: "n < 10 ^ k \<Longrightarrow> 0 < k \<Longrightarrow> length (digits n) \<le> k"
proof (induction n arbitrary: k rule: digits.induct)
  case (1 n)
  show ?case
  proof (cases "n < 10")
    case True
    with "1.prems" show ?thesis by (simp add: digits_small)
  next
    case False
    with "1.prems" obtain k' where k: "k = Suc k'" and k': "0 < k'"
      by (cases k; cases "k - 1") auto
    from "1.prems" k have "n div 10 < 10 ^ k'" by (simp add: less_mult_imp_div_less mult.commute)
    with "1.IH" [of k'] False k' have "length (digits (n div 10)) \<le> k'" by simp
    with False k show ?thesis by (simp add: digits_large)
  qed
qed

lemma digits_ok_small: "\<bar>v\<bar> < 10000 \<Longrightarrow> 4 \<le> lim \<Longrightarrow> digits_ok lim v"
proof -
  assume v: "\<bar>v\<bar> < 10000" and lim: "4 \<le> lim"
  then have "nat \<bar>v\<bar> < 10 ^ 4" by simp
  then have "length (digits (nat \<bar>v\<bar>)) \<le> 4" by (rule length_digits_le) simp
  with lim show ?thesis by (simp add: digits_ok_def)
qed

section \<open>Numbers with many digits and deep nesting\<close>

lemma digits_power10: "digits (10 ^ k) = 49 # replicate k 48"
proof (induction k)
  case 0
  then show ?case by (simp add: digits_small)
next
  case (Suc k)
  have "digits (10 ^ Suc k) = digits (10 ^ Suc k div 10) @ [48 + 10 ^ Suc k mod 10]"
    by (rule digits_large) simp
  with Suc show ?case by (simp add: replicate_append_same)
qed

lemma digits_ok_power10: "digits_ok lim (10 ^ k) = (lim = 0 \<or> k < lim)"
  by (auto simp: digits_ok_def nat_power_eq digits_power10)

lemma int_repr_power10: "int_repr (10 ^ k) = 49 # replicate k 48"
  by (simp add: int_repr_def nat_power_eq digits_power10)

lemma big_over_limit: "\<not> digits_ok 4300 big"
  unfolding big_def digits_ok_power10 by simp

lemma int_repr_big: "int_repr big = long_number"
  unfolding big_def long_number_def by (rule int_repr_power10)

lemma big_nonneg: "0 \<le> big"
  unfolding big_def by (rule zero_le_power) simp

lemma match_number_end:
  assumes d0: "is_digit d0" and dt: "\<forall>x \<in> set dt. is_digit x" and z: "d0 = 48 \<longrightarrow> dt = []"
  shows "match_number (d0 # dt) = Some (PInt (int_of_digits (d0 # dt)), [])"
    and "match_number (45 # d0 # dt) = Some (PInt (- int_of_digits (d0 # dt)), [])"
proof -
  from d0 have n45: "d0 \<noteq> 45" by (auto simp: is_digit_def)
  have tw: "takeWhile is_digit dt = dt" and dw: "dropWhile is_digit dt = []"
    using dt by simp_all
  have rest: "(if d0 = 48 then ([d0], dt)
               else (d0 # takeWhile is_digit dt, dropWhile is_digit dt)) = (d0 # dt, [])"
    using z by (simp add: tw dw)
  have fr: "match_fraction [] = ([], [])" by (simp add: match_fraction_def)
  have ex: "match_exponent [] = ([], [])" by (simp add: match_exponent_def)
  show "match_number (d0 # dt) = Some (PInt (int_of_digits (d0 # dt)), [])"
    unfolding match_number_def
    by (simp only: list.case n45 if_False prod.case Let_def d0 not_True_eq_False rest fr ex) simp
  show "match_number (45 # d0 # dt) = Some (PInt (- int_of_digits (d0 # dt)), [])"
    unfolding match_number_def
    by (simp only: list.case if_True refl prod.case Let_def d0 not_True_eq_False if_False rest
        fr ex) simp
qed

lemma match_number_int_repr_end: "match_number (int_repr v) = Some (PInt v, [])"
proof -
  have *: "match_number ((if neg then [45] else []) @ digits n) =
      Some (PInt (if neg then - int n else int n), [])" for neg n
  proof -
    obtain d0 dt where ds: "digits n = d0 # dt"
      using digits_nonempty [of n] by (cases "digits n") auto
    with digits_all [of n] have d0: "is_digit d0" and dt: "\<forall>x \<in> set dt. is_digit x" by simp_all
    have z: "d0 = 48 \<longrightarrow> dt = []"
      using hd_digits [of n] digits_zero ds by (cases "n = 0") auto
    have v: "int_of_digits (d0 # dt) = int n"
      using int_of_digits_digits [of n] ds by simp
    from match_number_end [OF d0 dt z] show ?thesis
      by (simp add: ds v)
  qed
  show ?thesis
  proof (cases "v < 0")
    case True
    with * [of True "nat (- v)"] show ?thesis by (simp add: int_repr_def)
  next
    case False
    with * [of False "nat v"] show ?thesis by (simp add: int_repr_def)
  qed
qed

text \<open>
  A text that starts with the decimal text of an integer, at its end or before a letter:
  the integer is converted before the rest of the text is looked at.
\<close>

lemma scan_once_number:
  assumes "t = [] \<or> (\<exists>c r. t = c # r \<and> \<not> is_digit c \<and> c \<noteq> 46 \<and> c \<noteq> 101 \<and> c \<noteq> 69)"
  shows "scan_once (Suc n) lim room (int_repr v @ t) =
     (if digits_ok lim v then Inr (PInt v, t) else Inl ValueError)"
proof -
  from int_repr_shape [of v] obtain c0 r0 where
    shape: "int_repr v = c0 # r0"
      "is_digit c0 \<or> (c0 = 45 \<and> (\<exists>d r1. r0 = d # r1 \<and> is_digit d))" by blast
  then have first: "c0 \<noteq> 34" "c0 \<noteq> 123" "c0 \<noteq> 91"
    by (auto simp: is_digit_def)
  from shape have "match_constant constants (c0 # r0 @ t) = None"
    by (auto simp: match_constant_digit match_constant_minus_digit)
  moreover have "match_number (c0 # r0 @ t) = Some (PInt v, t)"
  proof (cases "t = []")
    case True
    with match_number_int_repr_end [of v] shape(1) show ?thesis by simp
  next
    case False
    with assms obtain c r where t: "t = c # r"
      and c: "\<not> is_digit c" "c \<noteq> 46" "c \<noteq> 101" "c \<noteq> 69" by blast
    from match_number_int_repr [OF c, of v r] shape(1) t show ?thesis by simp
  qed
  ultimately show ?thesis
    using first by (simp add: shape(1) number_ok_def)
qed

lemma json_loads_number:
  assumes "t = [] \<or> (\<exists>c r. t = c # r \<and> \<not> is_digit c \<and> c \<noteq> 46 \<and> c \<noteq> 101 \<and> c \<noteq> 69)"
  shows "json_loads ip (int_repr v @ t) =
     (if digits_ok (int_max_str_digits ip) v
      then if skip_ws t = [] then Inr (PInt v) else Inl JSONDecodeError
      else Inl ValueError)"
proof -
  have "2 * length (int_repr v @ t) + 1 = Suc (2 * length (int_repr v @ t))" by simp
  then show ?thesis
    unfolding json_loads_def int_repr_not_ws
    by (simp only: scan_once_number [OF assms]) simp
qed

text \<open>
  A text of \<open>k\<close> opening brackets is not JSON; the decoder finds that out at its end,
  when it has room for \<open>k\<close> arrays inside one another, and raises \<^verbatim>\<open>RecursionError\<close>
  before that when it has not.
\<close>

lemma scan_once_brackets_room:
  "k \<le> room \<Longrightarrow> scan_once n lim room (replicate k 91) = Inl JSONDecodeError"
proof (induction k arbitrary: n room)
  case 0
  then show ?case by (cases n) simp_all
next
  case (Suc k)
  from Suc.prems obtain room' where room: "room = Suc room'" and k: "k \<le> room'"
    by (cases room) auto
  show ?case
  proof (cases n)
    case 0
    then show ?thesis by simp
  next
    case n: (Suc m)
    show ?thesis
    proof (cases k)
      case 0
      with n room show ?thesis by simp
    next
      case k': (Suc k')
      have "scan_once (Suc m) lim (Suc room') (91 # 91 # replicate k' 91) =
          parse_elems m lim room' (91 # replicate k' 91) []"
        by (simp add: is_ws_def)
      also have "\<dots> = Inl JSONDecodeError"
      proof (cases m)
        case 0
        then show ?thesis by simp
      next
        case (Suc m')
        from Suc.IH [OF k, of m'] k'
        have "scan_once m' lim room' (91 # replicate k' 91) = Inl JSONDecodeError" by simp
        with Suc show ?thesis by simp
      qed
      finally show ?thesis by (simp add: n room k')
    qed
  qed
qed

lemma scan_once_brackets_deep:
  "room < k \<Longrightarrow> 2 * room < n \<Longrightarrow> scan_once n lim room (replicate k 91) = Inl RecursionError"
proof (induction room arbitrary: n k)
  case 0
  then obtain m k' where "n = Suc m" "k = Suc k'" by (cases n; cases k) auto
  then show ?case by simp
next
  case (Suc room)
  from Suc.prems obtain m where n: "n = Suc (Suc m)" and m: "2 * room < m"
    by (cases n; cases "n - 1") auto
  from Suc.prems obtain k' where k: "k = Suc (Suc k')" and k': "room < Suc k'"
    by (cases k; cases "k - 1") auto
  have "scan_once (Suc (Suc m)) lim (Suc room) (91 # 91 # replicate k' 91) =
      parse_elems (Suc m) lim room (91 # replicate k' 91) []"
    by (simp add: is_ws_def)
  also have "\<dots> = Inl RecursionError"
    using Suc.IH [OF k' m] by simp
  finally show ?case by (simp add: n k)
qed

lemma json_loads_brackets:
  "json_loads ip (replicate k 91) =
     (if json_depth ip < k then Inl RecursionError else Inl JSONDecodeError)"
proof -
  have ws: "skip_ws (replicate k 91) = replicate k 91"
    by (cases k) (simp_all add: is_ws_def)
  show ?thesis
  proof (cases "json_depth ip < k")
    case True
    then have "2 * json_depth ip < 2 * length (replicate k (91 :: nat)) + 1" by simp
    with True show ?thesis
      unfolding json_loads_def ws by (simp only: scan_once_brackets_deep) simp
  next
    case False
    then have "k \<le> json_depth ip" by simp
    with False show ?thesis
      unfolding json_loads_def ws by (simp only: scan_once_brackets_room) simp
  qed
qed

section \<open>Texts within the limits of the interpreter\<close>

text \<open>
  A text that is no longer than the limit on digits, and no longer than the depth that
  is free, cannot reach either limit: every failure of the decoder on it is a
  \<^verbatim>\<open>JSONDecodeError\<close>.
\<close>

lemma int_of_digits_bound:
  "\<forall>x \<in> set ds. is_digit x \<Longrightarrow> 0 \<le> int_of_digits ds \<and> int_of_digits ds < 10 ^ length ds"
proof (induction ds rule: rev_induct)
  case Nil
  then show ?case by (simp add: int_of_digits_def)
next
  case (snoc d ds)
  then have IH: "0 \<le> int_of_digits ds" "int_of_digits ds < 10 ^ length ds" by simp_all
  from snoc.prems have "int (d - 48) \<le> 9" by (simp add: is_digit_def)
  moreover from IH(2) have "int_of_digits ds * 10 + 10 \<le> 10 ^ length ds * 10" by simp
  ultimately show ?case using IH(1) by (simp add: int_of_digits_snoc)
qed

lemma match_number_digits_bound:
  assumes "match_number s = Some (PInt i, rest)"
  shows "length (digits (nat \<bar>i\<bar>)) \<le> length s"
proof -
  obtain sign s1 where s1: "(case s of [] \<Rightarrow> ([], s) | c # r \<Rightarrow> if c = 45 then ([c], r) else ([], s)) = (sign, s1)"
    by (cases "(case s of [] \<Rightarrow> ([], s) | c # r \<Rightarrow> if c = 45 then ([c], r) else ([]::pystr, s))")
  then have l1: "length s1 \<le> length s" by (auto split: list.splits if_splits)
  from assms s1 obtain c r where cr: "s1 = c # r" "is_digit c"
    by (cases s1) (auto simp: match_number_def split: if_splits)
  obtain ip s2 where s2: "(if c = 48 then ([c], r)
      else (c # takeWhile is_digit r, dropWhile is_digit r)) = (ip, s2)"
    by (cases "(if c = 48 then ([c], r) else (c # takeWhile is_digit r, dropWhile is_digit r))")
  then have ip: "\<forall>x \<in> set ip. is_digit x" "0 < length ip" "length ip \<le> length s1"
    using cr by (auto split: if_splits dest: set_takeWhileD
        intro: le_trans [OF length_takeWhile_le])
  obtain frac s3 where s3: "match_fraction s2 = (frac, s3)" by (cases "match_fraction s2")
  obtain ex s4 where s4: "match_exponent s3 = (ex, s4)" by (cases "match_exponent s3")
  from assms s1 cr s2 s3 s4 have "i = int_of_digits ip \<or> i = - int_of_digits ip"
    by (auto simp: match_number_def split: if_splits)
  with int_of_digits_bound [OF ip(1)] have "\<bar>i\<bar> = int_of_digits ip" by auto
  with int_of_digits_bound [OF ip(1)] have "nat \<bar>i\<bar> < 10 ^ length ip"
    by (simp add: nat_less_iff)
  from length_digits_le [OF this ip(2)] ip(3) l1 show ?thesis by simp
qed

lemma scan_once_within:
  "lim = 0 \<or> length s \<le> lim \<Longrightarrow> length s \<le> room \<Longrightarrow>
   scan_once n lim room s = Inl e \<Longrightarrow> e = JSONDecodeError"
  "lim = 0 \<or> length s \<le> lim \<Longrightarrow> length s \<le> room \<Longrightarrow>
   parse_members n lim room s d = Inl e \<Longrightarrow> e = JSONDecodeError"
  "lim = 0 \<or> length s \<le> lim \<Longrightarrow> length s \<le> room \<Longrightarrow>
   parse_elems n lim room s acc = Inl e \<Longrightarrow> e = JSONDecodeError"
proof (induction n lim room s and n lim room s d and n lim room s acc
    rule: scan_once_parse_members_parse_elems.induct)
  case (1 lim room s)
  then show ?case by simp
next
  case (2 n lim room s)
  note lim = "2.prems"(1) and room = "2.prems"(2) and res = "2.prems"(3)
  show ?case
  proof (cases s)
    case Nil
    with res show ?thesis by simp
  next
    case (Cons c r)
    consider (string) "c = 34" | (object) "c = 123" | (array) "c = 91"
      | (other) "c \<noteq> 34" "c \<noteq> 123" "c \<noteq> 91" by blast
    then show ?thesis
    proof cases
      case string
      with res Cons show ?thesis by (auto split: option.splits)
    next
      case object
      from room Cons obtain room' where r': "room = Suc room'" by (cases room) auto
      show ?thesis
      proof (cases "skip_ws r")
        case Nil
        with res Cons object r' show ?thesis by simp
      next
        case ws: (Cons c' r')
        from skip_ws_length [of r] ws Cons lim room r'
        have l: "lim = 0 \<or> length (c' # r') \<le> lim" "length (c' # r') \<le> room'" by auto
        show ?thesis
        proof (cases "c' = 125")
          case True
          with res Cons object r' ws show ?thesis by simp
        next
          case False
          with res Cons object r' ws
          have "parse_members n lim room' (c' # r') [] = Inl e" by simp
          with "2.IH"(1) [of c r room' c' r'] Cons object r' ws False l show ?thesis by simp
        qed
      qed
    next
      case array
      from room Cons obtain room' where r': "room = Suc room'" by (cases room) auto
      show ?thesis
      proof (cases "skip_ws r")
        case Nil
        with res Cons array r' show ?thesis by simp
      next
        case ws: (Cons c' r')
        from skip_ws_length [of r] ws Cons lim room r'
        have l: "lim = 0 \<or> length (c' # r') \<le> lim" "length (c' # r') \<le> room'" by auto
        show ?thesis
        proof (cases "c' = 93")
          case True
          with res Cons array r' ws show ?thesis by simp
        next
          case False
          with res Cons array r' ws
          have "parse_elems n lim room' (c' # r') [] = Inl e" by simp
          with "2.IH"(2) [of c r room' c' r'] Cons array r' ws False l show ?thesis by simp
        qed
      qed
    next
      case other
      show ?thesis
      proof (cases "match_constant constants s")
        case (Some a)
        with res Cons other show ?thesis by simp
      next
        case None
        show ?thesis
        proof (cases "match_number s")
          case none: None
          with res Cons other None show ?thesis by simp
        next
          case (Some vr)
          obtain v r'' where vr: "vr = (v, r'')" by (cases vr)
          have "number_ok lim v"
          proof (cases v)
            case (PInt i)
            from match_number_digits_bound [of s i r''] Some vr PInt lim
            show ?thesis by (auto simp: number_ok_def digits_ok_def)
          qed (simp_all add: number_ok_def)
          with res Cons other None Some vr show ?thesis by simp
        qed
      qed
    qed
  qed
next
  case (3 lim room s d)
  then show ?case by simp
next
  case (4 n lim room s d)
  note lim = "4.prems"(1) and room = "4.prems"(2) and res = "4.prems"(3)
  show ?case
  proof (cases s)
    case Nil
    with res show ?thesis by simp
  next
    case (Cons q r)
    show ?thesis
    proof (cases "q = 34")
      case False
      with res Cons show ?thesis by simp
    next
      case q: True
      show ?thesis
      proof (cases "scanstring r")
        case None
        with res Cons q show ?thesis by simp
      next
        case (Some kr)
        obtain key r1 where kr: "kr = (key, r1)" by (cases kr)
        from Some kr have l1: "length r1 < length r" by (auto dest: scanstring_length)
        show ?thesis
        proof (cases "skip_ws r1")
          case Nil
          with res Cons q Some kr show ?thesis by simp
        next
          case w1: (Cons c r2)
          from skip_ws_Cons_length [OF w1] l1 skip_ws_length [of r2] Cons
          have l2: "length (skip_ws r2) < length s" by simp
          with lim room have b2: "lim = 0 \<or> length (skip_ws r2) \<le> lim"
            "length (skip_ws r2) \<le> room" by auto
          show ?thesis
          proof (cases "c = 58")
            case False
            with res Cons q Some kr w1 show ?thesis by simp
          next
            case c: True
            show ?thesis
            proof (cases "scan_once n lim room (skip_ws r2)")
              case (Inl e')
              with res Cons q Some kr w1 c have "e' = e" by simp
              with "4.IH"(1) [of q r "(key, r1)" key r1 c r2] Cons q Some kr w1 c Inl b2
              show ?thesis by simp
            next
              case (Inr vr)
              obtain v' r3 where vr: "vr = (v', r3)" by (cases vr)
              from Inr vr have l3: "length r3 < length (skip_ws r2)"
                by (auto dest: scan_once_length(1))
              show ?thesis
              proof (cases "skip_ws r3")
                case Nil
                with res Cons q Some kr w1 c Inr vr show ?thesis by simp
              next
                case w2: (Cons x r4)
                from skip_ws_Cons_length [OF w2] l3 l2 skip_ws_length [of r4]
                have "length (skip_ws r4) < length s" by simp
                with lim room have b4: "lim = 0 \<or> length (skip_ws r4) \<le> lim"
                  "length (skip_ws r4) \<le> room" by auto
                show ?thesis
                proof (cases "x = 44")
                  case False
                  with res Cons q Some kr w1 c Inr vr w2 show ?thesis
                    by (simp split: if_splits)
                next
                  case True
                  with res Cons q Some kr w1 c Inr vr w2
                  have "parse_members n lim room (skip_ws r4) (AList.update key v' d) = Inl e"
                    by simp
                  with "4.IH"(2) [of q r "(key, r1)" key r1 c r2 "(v', r3)" v' r3 x r4]
                    Cons q Some kr w1 c Inr vr w2 True b4
                  show ?thesis by simp
                qed
              qed
            qed
          qed
        qed
      qed
    qed
  qed
next
  case (5 lim room s acc)
  then show ?case by simp
next
  case (6 n lim room s acc)
  note lim = "6.prems"(1) and room = "6.prems"(2) and res = "6.prems"(3)
  show ?case
  proof (cases "scan_once n lim room s")
    case (Inl e')
    with res have "e' = e" by simp
    with "6.IH"(1) Inl lim room show ?thesis by simp
  next
    case (Inr vr)
    obtain v' r where vr: "vr = (v', r)" by (cases vr)
    from Inr vr have l: "length r < length s" by (auto dest: scan_once_length(1))
    show ?thesis
    proof (cases "skip_ws r")
      case Nil
      with res Inr vr show ?thesis by simp
    next
      case w: (Cons x r')
      from skip_ws_Cons_length [OF w] l skip_ws_length [of r']
      have "length (skip_ws r') < length s" by simp
      with lim room have b: "lim = 0 \<or> length (skip_ws r') \<le> lim"
        "length (skip_ws r') \<le> room" by auto
      show ?thesis
      proof (cases "x = 44")
        case False
        with res Inr vr w show ?thesis by (simp split: if_splits)
      next
        case True
        with res Inr vr w
        have "parse_elems n lim room (skip_ws r') (acc @ [v']) = Inl e" by simp
        with "6.IH"(2) [of "(v', r)" v' r x r'] Inr vr w True b show ?thesis by simp
      qed
    qed
  qed
qed

lemma json_loads_within:
  assumes "int_max_str_digits ip = 0 \<or> length t \<le> int_max_str_digits ip"
    and "length t \<le> json_depth ip" and "json_loads ip t = Inl e"
  shows "e = JSONDecodeError"
proof -
  define res where
    "res = scan_once (2 * length t + 1) (int_max_str_digits ip) (json_depth ip) (skip_ws t)"
  from assms(3) have *: "(case res of Inl e \<Rightarrow> Inl e
      | Inr (v, rest) \<Rightarrow> if skip_ws rest = [] then Inr v else Inl JSONDecodeError) = Inl e"
    unfolding json_loads_def res_def .
  from assms(1,2) skip_ws_length [of t]
  have l: "int_max_str_digits ip = 0 \<or> length (skip_ws t) \<le> int_max_str_digits ip"
    "length (skip_ws t) \<le> json_depth ip" by auto
  show ?thesis
  proof (cases res)
    case (Inl e')
    with * have "e' = e" by simp
    with Inl scan_once_within(1) [OF l, of _ e] show ?thesis unfolding res_def by blast
  next
    case (Inr vr)
    with * show ?thesis by (cases vr) (simp split: if_splits)
  qed
qed

section \<open>Persistence: basic facts\<close>

lemma assign_stock_fields [simp]:
  "stock_data (assign_stock v self) = v"
  "file_path (assign_stock v self) = file_path self"
  "files (assign_stock v self) = files self"
  "log (assign_stock v self) = log self"
  "interp (assign_stock v self) = interp self"
  by (simp_all add: assign_stock_def)

lemma path_error_cases:
  "path_error p = None \<or> path_error p = Some UnicodeEncodeError \<or> path_error p = Some ValueError"
  by (simp add: path_error_def)

text \<open>
  Every outcome of \<^verbatim>\<open>save_data\<close>. The exceptions that leave it are those of a path that
  \<^verbatim>\<open>open\<close> refuses and the \<^verbatim>\<open>ValueError\<close> of a quantity with too many digits, which
  leaves the file cut before that quantity.
\<close>

lemma save_data_outcomes:
  "save_data self =
     (case path_error (file_path self) of
        Some e \<Rightarrow> Inl (e, self)
      | None \<Rightarrow>
          (case files self (file_path self) of
             Blocked error \<Rightarrow>
               Inr (logging ERROR ''Error saving inventory data: %s'' [Exc error] self)
           | _ \<Rightarrow>
               if list_all (\<lambda>kv. digits_ok (int_max_str_digits (interp self)) (snd kv))
                    (stock_data self)
               then Inr (logging INFO ''Inventory data saved successfully.'' []
                      (self\<lparr>files := (files self)
                         (file_path self := Text (json_dumps (stock_data self)))\<rparr>))
               else Inl (ValueError,
                      self\<lparr>files := (files self)
                        (file_path self := Text (fst (json_dump_text
                           (int_max_str_digits (interp self)) (stock_data self))))\<rparr>)))"
proof (cases "path_error (file_path self)")
  case (Some e)
  with path_error_cases [of "file_path self"] show ?thesis
    by (auto simp: save_data_def save_data_try_def open_write_def)
next
  case None
  let ?lim = "int_max_str_digits (interp self)"
  obtain t e where w: "json_dump_text ?lim (stock_data self) = (t, e)"
    by (cases "json_dump_text ?lim (stock_data self)")
  show ?thesis
  proof (cases "list_all (\<lambda>kv. digits_ok ?lim (snd kv)) (stock_data self)")
    case True
    then have "\<forall>v \<in> snd ` set (stock_data self). digits_ok ?lim v"
      by (auto simp: list_all_iff)
    from json_dump_text_ok [OF this] w have "t = json_dumps (stock_data self)" "e = None"
      by simp_all
    with None True w show ?thesis
      by (cases "files self (file_path self)")
        (simp_all add: save_data_def save_data_try_def open_write_def json_dump_def)
  next
    case False
    with json_dump_text_error [of ?lim "stock_data self"] w have "e = Some ValueError" by simp
    with None False w show ?thesis
      by (cases "files self (file_path self)")
        (simp_all add: save_data_def save_data_try_def open_write_def json_dump_def)
  qed
qed

lemma open_read_errors:
  "open_read fs p = Inl e \<Longrightarrow> e \<noteq> JSONDecodeError \<and> e \<noteq> RecursionError"
  using path_error_cases [of p]
  by (auto simp: open_read_def split: option.splits node.splits)

text \<open>
  \<^verbatim>\<open>load_data\<close> when \<^verbatim>\<open>open\<close> raises, and when the file has been read.
\<close>

lemma load_data_not_opened:
  assumes "open_read (files self) (file_path self) = Inl e"
  shows "load_data self =
     (if e = OSError FileNotFoundError
      then Inr (logging WARNING ''File %s not found. Starting fresh.''
                  [Val (PStr (file_path self))] (assign_stock (PDict []) self))
      else Inl (e, self))"
proof (cases e)
  case (OSError oe)
  with assms show ?thesis
    by (cases oe) (simp_all add: load_data_def json_load_def)
next
  case JSONDecodeError
  with open_read_errors [OF assms] show ?thesis by simp
qed (use assms in \<open>simp_all add: load_data_def json_load_def\<close>)

lemma load_data_opened:
  assumes "open_read (files self) (file_path self) = Inr t"
  shows "load_data self =
     (case json_loads (interp self) t of
        Inr v \<Rightarrow>
          Inr (logging INFO ''Inventory data loaded successfully.'' [] (assign_stock v self))
      | Inl e \<Rightarrow>
          if e = JSONDecodeError
          then Inr (logging ERROR ''Error decoding JSON file. Starting fresh.'' []
                      (assign_stock (PDict []) self))
          else Inl (e, self))"
proof (cases "json_loads (interp self) t")
  case (Inr v)
  with assms show ?thesis by (simp add: load_data_def json_load_def)
next
  case (Inl e)
  from json_loads_errors [OF this] Inl assms show ?thesis
    by (auto simp: decoder_error_def load_data_def json_load_def)
qed

lemma open_read_text:
  "path_error p = None \<Longrightarrow> fs p = Text t \<Longrightarrow> open_read fs p = Inr t"
  by (simp add: open_read_def)

lemma path_error_inventory_json: "path_error (str ''inventory.json'') = None"
  by (simp add: path_error_def str_def)

text \<open>The calls on the store leave the path, the files and the interpreter alone.\<close>

lemma do_call_frame:
  "files (do_call c self) = files self \<and> file_path (do_call c self) = file_path self \<and>
   interp (do_call c self) = interp self"
  by (cases c) (auto simp: add_item_def remove_item_def split: option.splits)

lemma run_frame:
  "files (run cs self) = files self \<and> file_path (run cs self) = file_path self \<and>
   interp (run cs self) = interp self"
proof (induction cs arbitrary: self)
  case Nil
  then show ?case by simp
next
  case (Cons c cs)
  with do_call_frame [of c self] show ?case by simp
qed

lemma run_append: "run (xs @ ys) self = run ys (run xs self)"
  by (induction xs arbitrary: self) simp_all

text \<open>When the body of \<^verbatim>\<open>save_data\<close> ends without an exception, the whole text is in the file.\<close>

lemma save_data_try_done:
  assumes "save_data_try self = (None, saved)"
  shows "saved = logging INFO ''Inventory data saved successfully.'' []
           (self\<lparr>files := (files self)(file_path self := Text (json_dumps (stock_data self)))\<rparr>)"
    and "\<forall>v \<in> snd ` set (stock_data self). digits_ok (int_max_str_digits (interp self)) v"
    and "save_data self = Inr saved"
    and "path_error (file_path self) = None"
proof -
  let ?lim = "int_max_str_digits (interp self)"
  from assms obtain fs where fs: "open_write (files self) (file_path self) = Inr fs"
    by (cases "open_write (files self) (file_path self)") (auto simp: save_data_try_def)
  then have fs': "fs = (files self)(file_path self := Text [])"
    by (auto simp: open_write_def split: option.splits node.splits)
  obtain t e where w: "json_dump_text ?lim (stock_data self) = (t, e)"
    by (cases "json_dump_text ?lim (stock_data self)")
  with assms fs have e: "e = None"
    by (cases e) (auto simp: save_data_try_def json_dump_def)
  with json_dump_text_error [of ?lim "stock_data self"] w
  have ok: "list_all (\<lambda>kv. digits_ok ?lim (snd kv)) (stock_data self)"
    by (auto split: if_splits)
  then show vals: "\<forall>v \<in> snd ` set (stock_data self). digits_ok ?lim v"
    by (auto simp: list_all_iff)
  from json_dump_text_ok [OF vals] w have "t = json_dumps (stock_data self)" by simp
  with assms fs fs' w e
  show "saved = logging INFO ''Inventory data saved successfully.'' []
           (self\<lparr>files := (files self)(file_path self := Text (json_dumps (stock_data self)))\<rparr>)"
    by (simp add: save_data_try_def json_dump_def)
  from assms show "save_data self = Inr saved" by (simp add: save_data_def)
  from fs show "path_error (file_path self) = None"
    by (auto simp: open_write_def split: option.splits)
qed

lemma save_data_try_writable:
  assumes "path_error (file_path self) = None" "\<forall>e. files self (file_path self) \<noteq> Blocked e"
    and "\<forall>v \<in> snd ` set (stock_data self). digits_ok (int_max_str_digits (interp self)) v"
  shows "save_data_try self =
     (None, logging INFO ''Inventory data saved successfully.'' []
        (self\<lparr>files := (files self)(file_path self := Text (json_dumps (stock_data self)))\<rparr>))"
  using assms(1,2) json_dump_text_ok [OF assms(3)]
  by (cases "files self (file_path self)")
    (simp_all add: save_data_try_def open_write_def json_dump_def)

lemma dict_value_keys:
  assumes "dict_value d = PDict d'"
  shows "fst ` set d' = fst ` set d"
proof -
  from assms have "d' = map (\<lambda>(k, q). (k, PInt q)) d" by (simp add: dict_value_def)
  then have "map fst d' = map fst d" by (simp add: case_prod_beta comp_def)
  then have "set (map fst d') = set (map fst d)" by simp
  then show ?thesis by (simp only: set_map)
qed

text \<open>Loading a file that holds the text of a dict.\<close>

lemma load_data_dumped:
  assumes "open_read (files self) (file_path self) = Inr (json_dumps d)"
    and "dict_ok d" "\<forall>k \<in> fst ` set d. is_str k \<and> no_surrogate_pair k"
    and "\<forall>v \<in> snd ` set d. digits_ok (int_max_str_digits (interp self)) v"
    and "0 < json_depth (interp self)"
  shows "load_data self =
     Inr (logging INFO ''Inventory data loaded successfully.'' []
            (assign_stock (dict_value d) self))"
proof -
  from assms(3,2,4,5) have "json_loads (interp self) (json_dumps d) = Inr (dict_value d)"
    by (rule json_loads_dumps)
  with load_data_opened [OF assms(1)] show ?thesis by simp
qed

lemma on_file_fields:
  "files (on_file f) p = f" "file_path (on_file f) = str ''inventory.json''"
  "interp (on_file f) = \<lparr>int_max_str_digits = 4300, json_depth = 990\<rparr>"
  "stock_data (on_file f) = []" "log (on_file f) = []"
  by (simp_all add: on_file_def fresh_def)

lemma open_read_on_file: "open_read (files (on_file (Text t))) (file_path (on_file (Text t))) = Inr t"
  by (simp add: on_file_fields open_read_text path_error_inventory_json)

section \<open>Properties of the store\<close>

text \<open>
  C1 (as the code has it). In every state reached from an empty store by calls of
  \<^verbatim>\<open>add_item\<close> and \<^verbatim>\<open>remove_item\<close>, with any arguments, every item that is present has a
  quantity that is not negative; it is strictly positive when no call added the
  quantity 0.
\<close>

theorem stock_quantities_reachable:
  assumes "stock_data self = []"
    and "map_of (stock_data (run cs self)) item = Some q"
  shows "0 \<le> q \<and> ((\<forall>i qty. Add i qty \<in> set cs \<longrightarrow> as_int qty \<noteq> Some 0) \<longrightarrow> 0 < q)"
  using run_nonneg [of self cs] run_pos [of self cs] assms
  by (auto simp: quantities_def)

theorem stock_quantities_reachable_witness:
  "stock_data fresh = [] \<and>
   map_of (stock_data (run [Add (PStr (str ''apple'')) (PInt 10),
                            Remove (PStr (str ''apple'')) (PInt 3)] fresh)) (str ''apple'') = Some 7 \<and>
   \<not> (\<exists>i qty. Add i qty \<in> set [Add (PStr (str ''apple'')) (PInt 10),
                                   Remove (PStr (str ''apple'')) (PInt 3)] \<and> as_int qty = Some 0) \<and>
   (0 :: int) < 7"
  using stock_quantities_reachable [of fresh "[Add (PStr (str ''apple'')) (PInt 10),
    Remove (PStr (str ''apple'')) (PInt 3)]" "str ''apple''" 7]
  by (simp add: fresh_def add_item_stock remove_item_stock dict_get_def)

text \<open>
  C1 as stated fails: \<^verbatim>\<open>add_item("x", 0)\<close> on the empty store passes the test
  \<^verbatim>\<open>qty < 0\<close> and leaves the entry \<^verbatim>\<open>"x": 0\<close>.
\<close>

theorem add_zero_counterexample:
  "stock_data (run [Add (PStr (str ''x'')) (PInt 0)] fresh) = [(str ''x'', 0)]"
  by (simp add: fresh_def add_item_def dict_get_def)

text \<open>
  C2. \<^verbatim>\<open>add_item(item, qty)\<close> with a negative \<^verbatim>\<open>qty\<close> leaves the store as it was; with
  \<^verbatim>\<open>qty \<ge> 0\<close> the quantity of the item becomes what \<^verbatim>\<open>get_qty\<close> gave before (0 for an
  absent item) plus \<^verbatim>\<open>qty\<close>, and no other entry changes. From a state without the
  item, adding 10 gives 10 and adding 5 more gives 15.
\<close>

theorem add_item_effect:
  "(n < 0 \<longrightarrow> stock_data (add_item (PStr name) (PInt n) self) = stock_data self) \<and>
   (0 \<le> n \<longrightarrow>
      map_of (stock_data (add_item (PStr name) (PInt n) self)) name = Some (get_qty name self + n) \<and>
      (\<forall>other. other \<noteq> name \<longrightarrow>
         map_of (stock_data (add_item (PStr name) (PInt n) self)) other =
         map_of (stock_data self) other)) \<and>
   (map_of (stock_data self) name = None \<longrightarrow>
      get_qty name (add_item (PStr name) (PInt 10) self) = 10 \<and>
      get_qty name (add_item (PStr name) (PInt 5) (add_item (PStr name) (PInt 10) self)) = 15)"
  by (simp add: map_of_add_item) (simp add: add_item_stock get_qty_def dict_get_def update_conv')

theorem add_item_effect_witness:
  "(- 1 :: int) < 0 \<and> stock_data (add_item (PStr (str ''a'')) (PInt (- 1)) fresh) = stock_data fresh \<and>
   map_of (stock_data fresh) (str ''x'') = None \<and>
   get_qty (str ''x'') (add_item (PStr (str ''x'')) (PInt 10) fresh) = 10 \<and>
   get_qty (str ''x'') (add_item (PStr (str ''x'')) (PInt 5) (add_item (PStr (str ''x'')) (PInt 10) fresh)) = 15"
  using add_item_effect [of "- 1" "str ''a''" fresh] add_item_effect [of 10 "str ''x''" fresh]
  by (simp add: fresh_def)

text \<open>
  C3. \<^verbatim>\<open>remove_item(item, qty)\<close> leaves the store as it was when the item is absent or
  \<^verbatim>\<open>qty\<close> is negative; otherwise the quantity goes down by \<^verbatim>\<open>qty\<close>, and the entry is
  deleted when the result is not positive. Removing 20 of an item stored at 15
  deletes it, and \<^verbatim>\<open>get_qty\<close> is 0 afterwards.
\<close>

theorem remove_item_effect:
  "(map_of (stock_data self) name = None \<or> n < 0 \<longrightarrow>
      stock_data (remove_item (PStr name) (PInt n) self) = stock_data self) \<and>
   (map_of (stock_data self) name = Some stored \<and> 0 \<le> n \<longrightarrow>
      (if stored - n \<le> 0
       then name \<notin> fst ` set (stock_data (remove_item (PStr name) (PInt n) self)) \<and>
            get_qty name (remove_item (PStr name) (PInt n) self) = 0
       else map_of (stock_data (remove_item (PStr name) (PInt n) self)) name = Some (stored - n)) \<and>
      (\<forall>other. other \<noteq> name \<longrightarrow>
         map_of (stock_data (remove_item (PStr name) (PInt n) self)) other =
         map_of (stock_data self) other)) \<and>
   (map_of (stock_data self) name = Some 15 \<longrightarrow>
      name \<notin> fst ` set (stock_data (remove_item (PStr name) (PInt 20) self)) \<and>
      get_qty name (remove_item (PStr name) (PInt 20) self) = 0)"
proof -
  have absent: "get_qty name s = 0" if "name \<notin> fst ` set (stock_data s)" for s
    using that by (simp add: get_qty_def dict_get_def map_of_eq_None_iff [THEN iffD2])
  have gone: "name \<notin> fst ` set (stock_data (remove_item (PStr name) (PInt m) self))"
    if "map_of (stock_data self) name = Some v" "0 \<le> m" "v - m \<le> 0" for v m
    using that by (simp add: remove_item_stock delete_notin_dom)
  show ?thesis
  proof (intro conjI impI)
    assume "map_of (stock_data self) name = None \<or> n < 0"
    then show "stock_data (remove_item (PStr name) (PInt n) self) = stock_data self"
      by (auto simp: remove_item_stock split: option.split)
  next
    assume a: "map_of (stock_data self) name = Some stored \<and> 0 \<le> n"
    show "if stored - n \<le> 0
       then name \<notin> fst ` set (stock_data (remove_item (PStr name) (PInt n) self)) \<and>
            get_qty name (remove_item (PStr name) (PInt n) self) = 0
       else map_of (stock_data (remove_item (PStr name) (PInt n) self)) name = Some (stored - n)"
      using a gone [of stored n] absent [of "remove_item (PStr name) (PInt n) self"]
      by (simp add: map_of_remove_item)
    show "\<forall>other. other \<noteq> name \<longrightarrow>
         map_of (stock_data (remove_item (PStr name) (PInt n) self)) other =
         map_of (stock_data self) other"
      using a by (simp add: map_of_remove_item)
  next
    assume a: "map_of (stock_data self) name = Some 15"
    from gone [OF a, of 20]
    show "name \<notin> fst ` set (stock_data (remove_item (PStr name) (PInt 20) self))" by simp
    with absent show "get_qty name (remove_item (PStr name) (PInt 20) self) = 0" by simp
  qed
qed

theorem remove_item_effect_witness:
  "map_of (stock_data fifteen) (str ''x'') = Some 15 \<and> (0 :: int) \<le> 20 \<and>
   stock_data (remove_item (PStr (str ''x'')) (PInt 20) fifteen) = [] \<and>
   get_qty (str ''x'') (remove_item (PStr (str ''x'')) (PInt 20) fifteen) = 0 \<and>
   (map_of (stock_data fifteen) (str ''b'') = None \<or> (- 1 :: int) < 0) \<and>
   stock_data (remove_item (PStr (str ''b'')) (PInt (- 1)) fifteen) = stock_data fifteen"
  using remove_item_effect [of fifteen "str ''x''" 20 15]
    remove_item_effect [of fifteen "str ''b''" "- 1" 0]
  by (simp add: fifteen_def fresh_def str_def remove_item_stock)

text \<open>
  C5. \<^verbatim>\<open>check_low_items(threshold)\<close> returns the items whose stored quantity is below
  the threshold, each once and no other; without an argument the threshold is 5. The
  function returns a list and assigns nothing, so the store is the same after the call.
\<close>

theorem check_low_items_exact:
  assumes "dict_ok (stock_data self)"
  shows "(item \<in> set (check_low_items t self) \<longleftrightarrow>
            (\<exists>q. map_of (stock_data self) item = Some q \<and> q < t)) \<and>
         distinct (check_low_items t self) \<and>
         check_low_items_default self = check_low_items 5 self"
  using assms distinct_check_low_items [of "stock_data self" t]
  by (simp add: set_check_low_items dict_ok_def check_low_items_default_def)
     (simp add: check_low_items_def)

theorem check_low_items_exact_witness:
  "dict_ok (stock_data (add_item (PStr (str ''apple'')) (PInt 3) fresh)) \<and>
   check_low_items 5 (add_item (PStr (str ''apple'')) (PInt 3) fresh) = [str ''apple''] \<and>
   check_low_items 5 (add_item (PStr (str ''apple'')) (PInt 10)
     (add_item (PStr (str ''apple'')) (PInt 3) fresh)) = [] \<and>
   (str ''apple'' \<in> set (check_low_items 5 (add_item (PStr (str ''apple'')) (PInt 3) fresh)) \<longleftrightarrow>
     (\<exists>q. map_of (stock_data (add_item (PStr (str ''apple'')) (PInt 3) fresh)) (str ''apple'') = Some q \<and> q < 5))"
  using check_low_items_exact [of "add_item (PStr (str ''apple'')) (PInt 3) fresh" "str ''apple''" 5]
  by (simp add: fresh_def add_item_stock dict_get_def dict_ok_def check_low_items_def)

text \<open>
  C4 (as the code has it). From an empty store, after any calls of \<^verbatim>\<open>add_item\<close> and
  \<^verbatim>\<open>remove_item\<close>, \<^verbatim>\<open>get_qty\<close> is never negative. When a call of \<^verbatim>\<open>remove_item\<close> brings an
  item to 0 or below, then after any later calls that do not add the item again
  \<^verbatim>\<open>get_qty\<close> gives 0 for it and it is in no result of \<^verbatim>\<open>check_low_items\<close>, whatever the
  threshold. When moreover no item name of the store has a high surrogate directly
  before a low one, and the body of \<^verbatim>\<open>save_data\<close> ends without an exception, the file
  holds a JSON object that has no member of that name.
\<close>

theorem removed_item_gone:
  assumes "stock_data self = []"
  shows "0 \<le> get_qty item (run cs self) \<and>
    (\<forall>name stored n later.
       map_of (stock_data (run cs self)) name = Some stored \<and> 0 \<le> n \<and> stored - n \<le> 0 \<and>
       (\<forall>qty. Add (PStr name) qty \<notin> set later) \<longrightarrow>
       get_qty name (run later (remove_item (PStr name) (PInt n) (run cs self))) = 0 \<and>
       (\<forall>t. name \<notin> set (check_low_items t
              (run later (remove_item (PStr name) (PInt n) (run cs self))))) \<and>
       (\<forall>saved.
          (\<forall>k \<in> fst ` set (stock_data (run later (remove_item (PStr name) (PInt n) (run cs self)))).
             is_str k \<and> no_surrogate_pair k) \<and>
          0 < json_depth (interp self) \<and>
          save_data_try (run later (remove_item (PStr name) (PInt n) (run cs self))) =
            (None, saved) \<longrightarrow>
          (\<exists>txt d. files saved (file_path saved) = Text txt \<and>
             json_loads (interp self) txt = Inr (PDict d) \<and> name \<notin> fst ` set d)))"
proof (intro conjI allI impI)
  show "0 \<le> get_qty item (run cs self)"
    using run_nonneg [of self cs] assms
    by (simp add: get_qty_def dict_get_nonneg quantities_def)
next
  fix name stored n later
  assume a: "map_of (stock_data (run cs self)) name = Some stored \<and> 0 \<le> n \<and> stored - n \<le> 0 \<and>
       (\<forall>qty. Add (PStr name) qty \<notin> set later)"
  let ?r = "remove_item (PStr name) (PInt n) (run cs self)"
  let ?s = "run later ?r"
  have "name \<notin> fst ` set (stock_data ?r)"
    using a by (simp add: remove_item_stock delete_notin_dom)
  then have gone: "name \<notin> fst ` set (stock_data ?s)"
    using a by (intro run_absent) simp_all
  then show "get_qty name ?s = 0"
    by (simp add: get_qty_def dict_get_def map_of_eq_None_iff [THEN iffD2])
  show "name \<notin> set (check_low_items t ?s)" for t
    using gone check_low_items_subset [of t ?s] by blast
  fix saved
  assume b: "(\<forall>k \<in> fst ` set (stock_data ?s). is_str k \<and> no_surrogate_pair k) \<and>
          0 < json_depth (interp self) \<and> save_data_try ?s = (None, saved)"
  have s: "?s = run (cs @ Remove (PStr name) (PInt n) # later) self"
    by (simp add: run_append)
  have ip: "interp ?s = interp self"
    unfolding s using run_frame [of "cs @ Remove (PStr name) (PInt n) # later" self] by simp
  have ok: "dict_ok (stock_data ?s)"
    unfolding s using assms by (intro run_dict_ok) (simp add: dict_ok_def)
  from b have dn: "save_data_try ?s = (None, saved)" by simp
  from save_data_try_done(1) [OF dn]
  have written: "files saved (file_path saved) = Text (json_dumps (stock_data ?s))" by simp
  from save_data_try_done(2) [OF dn] ip
  have vals: "\<forall>v \<in> snd ` set (stock_data ?s). digits_ok (int_max_str_digits (interp self)) v"
    by simp
  from b have keys: "\<forall>k \<in> fst ` set (stock_data ?s). is_str k \<and> no_surrogate_pair k"
    and depth: "0 < json_depth (interp self)" by simp_all
  from keys ok vals depth
  have dec: "json_loads (interp self) (json_dumps (stock_data ?s)) = Inr (dict_value (stock_data ?s))"
    by (rule json_loads_dumps)
  obtain d where d: "dict_value (stock_data ?s) = PDict d" by (simp add: dict_value_def)
  with dict_value_keys [OF d] gone have "name \<notin> fst ` set d" by simp
  with written dec d
  show "\<exists>txt d. files saved (file_path saved) = Text txt \<and>
      json_loads (interp self) txt = Inr (PDict d) \<and> name \<notin> fst ` set d"
    by auto
qed

theorem removed_item_gone_witness:
  "stock_data fresh = [] \<and>
   map_of (stock_data (run orange_run fresh)) (str ''orange'') = Some 6 \<and>
   (0 :: int) \<le> 10 \<and> (6 :: int) - 10 \<le> 0 \<and>
   \<not> (\<exists>qty. Add (PStr (str ''orange'')) qty \<in> set [Add (PStr (str ''kiwi'')) (PInt 2)]) \<and>
   stock_data orange_gone = [(str ''kiwi'', 3)] \<and>
   is_str (str ''kiwi'') \<and> no_surrogate_pair (str ''kiwi'') \<and>
   0 < json_depth (interp fresh) \<and>
   fst (save_data_try orange_gone) = None \<and>
   get_qty (str ''orange'') orange_gone = 0 \<and>
   str ''orange'' \<notin> set (check_low_items 5 orange_gone) \<and>
   (\<exists>txt d. files (snd (save_data_try orange_gone)) (file_path (snd (save_data_try orange_gone))) =
        Text txt \<and>
      json_loads (interp fresh) txt = Inr (PDict d) \<and> str ''orange'' \<notin> fst ` set d)"
proof -
  let ?later = "[Add (PStr (str ''kiwi'')) (PInt 2)]"
  have a: "stock_data fresh = []" by (simp add: fresh_def)
  have b: "map_of (stock_data (run orange_run fresh)) (str ''orange'') = Some 6"
    by (simp add: orange_run_def fresh_def add_item_stock dict_get_def str_def)
  have c: "\<forall>qty. Add (PStr (str ''orange'')) qty \<notin> set ?later"
    by (simp add: str_def)
  have st: "stock_data orange_gone = [(str ''kiwi'', 3)]"
    by (simp add: orange_gone_def orange_run_def fresh_def add_item_stock remove_item_stock
        dict_get_def str_def)
  have k: "is_str (str ''kiwi'')" "no_surrogate_pair (str ''kiwi'')"
    by (simp_all add: is_str_def str_def is_high_def is_low_def)
  have depth: "0 < json_depth (interp fresh)" by (simp add: fresh_def)
  have "orange_gone =
      run (orange_run @ [Remove (PStr (str ''orange'')) (PInt 10), Add (PStr (str ''kiwi'')) (PInt 2)])
        fresh"
    by (simp add: orange_gone_def run_append)
  with run_frame [of "orange_run @ [Remove (PStr (str ''orange'')) (PInt 10),
      Add (PStr (str ''kiwi'')) (PInt 2)]" fresh]
  have fr: "files orange_gone = files fresh" "file_path orange_gone = file_path fresh"
    "interp orange_gone = interp fresh" by simp_all
  have "save_data_try orange_gone =
     (None, logging INFO ''Inventory data saved successfully.'' []
        (orange_gone\<lparr>files := (files orange_gone)
           (file_path orange_gone := Text (json_dumps (stock_data orange_gone)))\<rparr>))"
  proof (rule save_data_try_writable)
    show "path_error (file_path orange_gone) = None"
      by (simp add: fr fresh_def path_error_inventory_json)
    show "\<forall>e. files orange_gone (file_path orange_gone) \<noteq> Blocked e"
      by (simp add: fr fresh_def)
    show "\<forall>v \<in> snd ` set (stock_data orange_gone).
        digits_ok (int_max_str_digits (interp orange_gone)) v"
      by (simp add: st fr fresh_def digits_ok_small)
  qed
  then have sv: "fst (save_data_try orange_gone) = None"
    and pair: "save_data_try orange_gone = (None, snd (save_data_try orange_gone))"
    by simp_all
  have eq: "run ?later (remove_item (PStr (str ''orange'')) (PInt 10) (run orange_run fresh)) =
      orange_gone"
    by (simp only: orange_gone_def)
  have prem: "map_of (stock_data (run orange_run fresh)) (str ''orange'') = Some 6 \<and>
      (0 :: int) \<le> 10 \<and> (6 :: int) - 10 \<le> 0 \<and>
      (\<forall>qty. Add (PStr (str ''orange'')) qty \<notin> set ?later)"
    using b c by simp
  note inner = removed_item_gone [OF a, of "str ''x''" orange_run, THEN conjunct2, rule_format,
      of "str ''orange''" 6 10 ?later, OF prem, unfolded eq]
  from inner have g: "get_qty (str ''orange'') orange_gone = 0"
    by (rule conjunct1)
  from inner have "\<forall>t. str ''orange'' \<notin> set (check_low_items t orange_gone)"
    by (rule conjunct1 [OF conjunct2])
  then have l: "str ''orange'' \<notin> set (check_low_items 5 orange_gone)" by (rule spec)
  from inner have f: "\<forall>saved.
      (\<forall>k \<in> fst ` set (stock_data orange_gone). is_str k \<and> no_surrogate_pair k) \<and>
      0 < json_depth (interp fresh) \<and> save_data_try orange_gone = (None, saved) \<longrightarrow>
      (\<exists>txt d. files saved (file_path saved) = Text txt \<and>
         json_loads (interp fresh) txt = Inr (PDict d) \<and> str ''orange'' \<notin> fst ` set d)"
    by (rule conjunct2 [OF conjunct2])
  have keys: "\<forall>k \<in> fst ` set (stock_data orange_gone). is_str k \<and> no_surrogate_pair k"
    using k by (simp add: st)
  from f [THEN spec, of "snd (save_data_try orange_gone)"] keys depth pair
  have "\<exists>txt d. files (snd (save_data_try orange_gone))
        (file_path (snd (save_data_try orange_gone))) = Text txt \<and>
      json_loads (interp fresh) txt = Inr (PDict d) \<and> str ''orange'' \<notin> fst ` set d"
    by blast
  with a b c st k depth sv g l show ?thesis by simp
qed

text \<open>
  C4 as stated fails for the file. The items \<^verbatim>\<open>"\ud83d\ude00"\<close> (two code points)
  and \<^verbatim>\<open>"\U0001f600"\<close> (one) are added and the second is removed: \<^verbatim>\<open>get_qty\<close> gives 0 for it. The
  first is written to the file as two \<^verbatim>\<open>\u\<close> escapes, which is also how the name of the
  removed item is written and what the decoder reads as that name, so the file holds
  the object with the removed item as its only member. The claim also fails when the
  item is added again after its removal.
\<close>

theorem removed_item_in_file_counterexample:
  "stock_data (run smiley_run fresh) = [([0xD83D, 0xDE00], 1)] \<and>
   get_qty [0x1F600] (run smiley_run fresh) = 0 \<and>
   fst (save_data_try (run smiley_run fresh)) = None \<and>
   files (snd (save_data_try (run smiley_run fresh))) (file_path (run smiley_run fresh)) =
     Text [123, 10, 32, 32, 32, 32,
           34, 92, 117, 100, 56, 51, 100, 92, 117, 100, 101, 48, 48, 34, 58, 32, 49, 10, 125] \<and>
   encode_basestring_ascii [0x1F600] =
     [34, 92, 117, 100, 56, 51, 100, 92, 117, 100, 101, 48, 48, 34] \<and>
   json_loads (interp fresh)
     [123, 10, 32, 32, 32, 32,
      34, 92, 117, 100, 56, 51, 100, 92, 117, 100, 101, 48, 48, 34, 58, 32, 49, 10, 125] =
     Inr (PDict [([0x1F600], PInt 1)]) \<and>
   str ''x'' \<in> set (check_low_items 5
     (run [Add (PStr (str ''x'')) (PInt 1), Remove (PStr (str ''x'')) (PInt 1),
           Add (PStr (str ''x'')) (PInt 1)] fresh))"
proof -
  let ?s = "run smiley_run fresh"
  have st: "stock_data ?s = [([0xD83D, 0xDE00], 1)]"
    by (simp add: smiley_run_def fresh_def add_item_stock remove_item_stock dict_get_def)
  have fr: "files ?s = files fresh" "file_path ?s = file_path fresh" "interp ?s = interp fresh"
    using run_frame [of smiley_run fresh] by simp_all
  have dump: "json_dumps [([0xD83D, 0xDE00], 1)] =
      [123, 10, 32, 32, 32, 32,
       34, 92, 117, 100, 56, 51, 100, 92, 117, 100, 101, 48, 48, 34, 58, 32, 49, 10, 125]"
    by (simp add: dump_eval)
  have "save_data_try ?s =
     (None, logging INFO ''Inventory data saved successfully.'' []
        (?s\<lparr>files := (files ?s)(file_path ?s := Text (json_dumps (stock_data ?s)))\<rparr>))"
  proof (rule save_data_try_writable)
    show "path_error (file_path ?s) = None"
      by (simp only: fr) (simp add: fresh_def path_error_inventory_json)
    show "\<forall>e. files ?s (file_path ?s) \<noteq> Blocked e"
      by (simp only: fr) (simp add: fresh_def)
    show "\<forall>v \<in> snd ` set (stock_data ?s). digits_ok (int_max_str_digits (interp ?s)) v"
      by (simp only: st fr) (simp add: fresh_def digits_ok_small)
  qed
  then have sv: "fst (save_data_try ?s) = None"
    and written: "files (snd (save_data_try ?s)) (file_path ?s) =
      Text [123, 10, 32, 32, 32, 32,
            34, 92, 117, 100, 56, 51, 100, 92, 117, 100, 101, 48, 48, 34, 58, 32, 49, 10, 125]"
    by (simp_all only: st dump fst_conv snd_conv logging_fields)
      (simp_all add: )
  have q: "get_qty [0x1F600] ?s = 0"
    by (simp add: get_qty_def dict_get_def st)
  have enc: "encode_basestring_ascii [0x1F600] =
      [34, 92, 117, 100, 56, 51, 100, 92, 117, 100, 101, 48, 48, 34]"
    by (simp add: dump_eval)
  have dec: "json_loads (interp fresh)
      [123, 10, 32, 32, 32, 32,
       34, 92, 117, 100, 56, 51, 100, 92, 117, 100, 101, 48, 48, 34, 58, 32, 49, 10, 125] =
      Inr (PDict [([0x1F600], PInt 1)])"
    by (simp add: fresh_def json_eval digits_ok_small del: Suc_numeral)
  have again: "str ''x'' \<in> set (check_low_items 5
     (run [Add (PStr (str ''x'')) (PInt 1), Remove (PStr (str ''x'')) (PInt 1),
           Add (PStr (str ''x'')) (PInt 1)] fresh))"
    by (simp add: fresh_def add_item_stock remove_item_stock dict_get_def check_low_items_def)
  from st q sv written enc dec again show ?thesis by simp
qed

section \<open>Properties of persistence\<close>

text \<open>
  C6 (as the code has it). When every key is a string of code points in which no high
  surrogate stands directly before a low surrogate, and the body of \<^verbatim>\<open>save_data\<close> has
  ended without an exception, \<^verbatim>\<open>load_data\<close> on the same object, or on a new \<^verbatim>\<open>Inventory\<close>
  of the same path in the same interpreter, gives back the dict that was saved, in the
  same order.
\<close>

theorem save_load_roundtrip:
  assumes "dict_ok (stock_data self)"
    and "\<forall>k \<in> fst ` set (stock_data self). is_str k \<and> no_surrogate_pair k"
    and "save_data_try self = (None, saved)"
    and "0 < json_depth (interp self)"
  shows "map_sum fst stock_data (save_then_load self) = Inr (dict_value (stock_data self)) \<and>
         map_sum fst stock_data (Inventory (file_path self) lg (files saved) (interp self)) =
           Inr (dict_value (stock_data self))"
proof -
  note sv = save_data_try_done [OF assms(3)]
  have a: "map_sum fst stock_data (load_data s) = Inr (dict_value (stock_data self))"
    if "files s = files saved" "file_path s = file_path self" "interp s = interp self"
    for s :: "stock inventory"
  proof -
    have "open_read (files s) (file_path s) = Inr (json_dumps (stock_data self))"
      using that sv(1,4) by (simp add: open_read_text)
    from load_data_dumped [OF this assms(1,2)] sv(2) assms(4) that(3) show ?thesis by simp
  qed
  have "map_sum fst stock_data (load_data saved) = Inr (dict_value (stock_data self))"
    by (rule a) (simp_all add: sv(1))
  moreover have "map_sum fst stock_data (Inventory (file_path self) lg (files saved) (interp self)) =
      Inr (dict_value (stock_data self))"
    unfolding Inventory_def by (rule a) simp_all
  ultimately show ?thesis by (simp add: save_then_load_def sv(3))
qed

theorem save_load_roundtrip_witness:
  "dict_ok (stock_data two_items) \<and>
   is_str (str ''apple'') \<and> no_surrogate_pair (str ''apple'') \<and>
   is_str (str ''banana'') \<and> no_surrogate_pair (str ''banana'') \<and>
   files two_items (file_path two_items) = Absent \<and>
   fst (save_data_try two_items) = None \<and>
   0 < json_depth (interp two_items) \<and>
   map_sum fst stock_data (save_then_load two_items) =
     Inr (PDict [(str ''apple'', PInt 7), (str ''banana'', PInt 2)])"
proof -
  have "save_data_try two_items =
     (None, logging INFO ''Inventory data saved successfully.'' []
        (two_items\<lparr>files := (files two_items)
           (file_path two_items := Text (json_dumps (stock_data two_items)))\<rparr>))"
    by (rule save_data_try_writable)
      (simp_all add: two_items_def fresh_def path_error_inventory_json digits_ok_small)
  then have sv: "save_data_try two_items = (None, snd (save_data_try two_items))"
    and none: "fst (save_data_try two_items) = None" by simp_all
  have ok: "dict_ok (stock_data two_items)"
    by (simp add: two_items_def fresh_def dict_ok_def str_def)
  have keys: "\<forall>k \<in> fst ` set (stock_data two_items). is_str k \<and> no_surrogate_pair k"
    by (simp add: two_items_def fresh_def is_str_def str_def is_high_def is_low_def)
  have depth: "0 < json_depth (interp two_items)" by (simp add: two_items_def fresh_def)
  from save_load_roundtrip [OF ok keys sv depth, of "[]"]
  have "map_sum fst stock_data (save_then_load two_items) = Inr (dict_value (stock_data two_items))"
    by (rule conjunct1)
  with ok keys none depth show ?thesis
    by (simp add: two_items_def fresh_def dict_value_def)
qed

text \<open>
  C6 as stated fails on a key made of a high and a low surrogate: the encoder writes
  them as two \<^verbatim>\<open>\u\<close> escapes, which the decoder reads back as one code point, so the
  key that is loaded is another string.
\<close>

theorem surrogate_roundtrip_counterexample:
  "stock_data surrogates = [([0xD83D, 0xDE00], 1)] \<and>
   dict_ok (stock_data surrogates) \<and> is_str [0xD83D, 0xDE00] \<and>
   files surrogates (file_path surrogates) = Absent \<and>
   fst (save_data_try surrogates) = None \<and>
   map_sum fst stock_data (save_then_load surrogates) = Inr (PDict [([0x1F600], PInt 1)]) \<and>
   dict_value (stock_data surrogates) = PDict [([0xD83D, 0xDE00], PInt 1)] \<and>
   map_sum fst stock_data (save_then_load surrogates) \<noteq> Inr (dict_value (stock_data surrogates))"
proof -
  let ?saved = "logging INFO ''Inventory data saved successfully.'' []
        (surrogates\<lparr>files := (files surrogates)
           (file_path surrogates := Text (json_dumps (stock_data surrogates)))\<rparr>)"
  have st: "stock_data surrogates = [([0xD83D, 0xDE00], 1)]"
    by (simp add: surrogates_def fresh_def)
  have sv: "save_data_try surrogates = (None, ?saved)"
    by (rule save_data_try_writable)
      (simp_all add: surrogates_def fresh_def path_error_inventory_json digits_ok_small)
  have "json_dumps [([0xD83D, 0xDE00], 1)] =
      [123, 10, 32, 32, 32, 32,
       34, 92, 117, 100, 56, 51, 100, 92, 117, 100, 101, 48, 48, 34, 58, 32, 49, 10, 125]"
    by (simp add: dump_eval)
  moreover have "json_loads \<lparr>int_max_str_digits = 4300, json_depth = 990\<rparr>
      [123, 10, 32, 32, 32, 32,
       34, 92, 117, 100, 56, 51, 100, 92, 117, 100, 101, 48, 48, 34, 58, 32, 49, 10, 125] =
      Inr (PDict [([0x1F600], PInt 1)])"
    by (simp add: json_eval digits_ok_small del: Suc_numeral)
  ultimately have dec: "json_loads (interp ?saved) (json_dumps (stock_data surrogates)) =
      Inr (PDict [([0x1F600], PInt 1)])"
    by (simp add: st) (simp add: surrogates_def fresh_def)
  have "open_read (files ?saved) (file_path ?saved) = Inr (json_dumps (stock_data surrogates))"
    by (simp add: open_read_text surrogates_def fresh_def path_error_inventory_json)
  from load_data_opened [OF this] dec
  have "map_sum fst stock_data (load_data ?saved) = Inr (PDict [([0x1F600], PInt 1)])"
    by simp
  then have "map_sum fst stock_data (save_then_load surrogates) =
      Inr (PDict [([0x1F600], PInt 1)])"
    by (simp add: save_then_load_def save_data_def sv)
  moreover have "fst (save_data_try surrogates) = None" by (simp add: sv)
  ultimately show ?thesis
    by (simp add: st dict_value_def dict_ok_def is_str_def) (simp add: surrogates_def fresh_def)
qed

text \<open>
  C7 (as the code has it). When \<^verbatim>\<open>open\<close> raises \<^verbatim>\<open>FileNotFoundError\<close>, \<^verbatim>\<open>load_data\<close> returns
  normally with the empty dict as the store, after a record of level \<^verbatim>\<open>WARNING\<close>; when
  the file is read and \<^verbatim>\<open>json.load\<close> raises \<^verbatim>\<open>JSONDecodeError\<close>, it does so after a record
  of level \<^verbatim>\<open>ERROR\<close>. When \<^verbatim>\<open>json.load\<close> raises another exception, which is then
  \<^verbatim>\<open>ValueError\<close> or \<^verbatim>\<open>RecursionError\<close>, the exception reaches the caller and the object is
  as it was. That cannot happen for a text that is no longer than the limit on digits
  and than the depth that is free: whenever the decoder rejects such a text,
  \<^verbatim>\<open>load_data\<close> resets the store.
\<close>

theorem load_data_recovers:
  "(open_read (files self) (file_path self) = Inl (OSError FileNotFoundError) \<longrightarrow>
      load_data self =
        Inr (logging WARNING ''File %s not found. Starting fresh.'' [Val (PStr (file_path self))]
               (assign_stock (PDict []) self))) \<and>
   (open_read (files self) (file_path self) = Inr t \<and>
    json_loads (interp self) t = Inl JSONDecodeError \<longrightarrow>
      load_data self =
        Inr (logging ERROR ''Error decoding JSON file. Starting fresh.'' []
               (assign_stock (PDict []) self))) \<and>
   (open_read (files self) (file_path self) = Inr t \<and>
    json_loads (interp self) t = Inl e \<and> e \<noteq> JSONDecodeError \<longrightarrow>
      load_data self = Inl (e, self) \<and> (e = ValueError \<or> e = RecursionError)) \<and>
   (open_read (files self) (file_path self) = Inr t \<and>
    (int_max_str_digits (interp self) = 0 \<or> length t \<le> int_max_str_digits (interp self)) \<and>
    length t \<le> json_depth (interp self) \<and> isl (json_loads (interp self) t) \<longrightarrow>
      load_data self =
        Inr (logging ERROR ''Error decoding JSON file. Starting fresh.'' []
               (assign_stock (PDict []) self)))"
proof (intro conjI impI)
  assume "open_read (files self) (file_path self) = Inl (OSError FileNotFoundError)"
  from load_data_not_opened [OF this]
  show "load_data self =
      Inr (logging WARNING ''File %s not found. Starting fresh.'' [Val (PStr (file_path self))]
             (assign_stock (PDict []) self))"
    by simp
next
  assume "open_read (files self) (file_path self) = Inr t \<and>
    json_loads (interp self) t = Inl JSONDecodeError"
  then show "load_data self =
      Inr (logging ERROR ''Error decoding JSON file. Starting fresh.'' []
             (assign_stock (PDict []) self))"
    by (simp add: load_data_opened)
next
  assume a: "open_read (files self) (file_path self) = Inr t \<and>
    json_loads (interp self) t = Inl e \<and> e \<noteq> JSONDecodeError"
  then show "load_data self = Inl (e, self)" by (simp add: load_data_opened)
  from a json_loads_errors [of "interp self" t e] show "e = ValueError \<or> e = RecursionError"
    by (simp add: decoder_error_def)
next
  assume a: "open_read (files self) (file_path self) = Inr t \<and>
    (int_max_str_digits (interp self) = 0 \<or> length t \<le> int_max_str_digits (interp self)) \<and>
    length t \<le> json_depth (interp self) \<and> isl (json_loads (interp self) t)"
  then obtain e' where e': "json_loads (interp self) t = Inl e'"
    by (cases "json_loads (interp self) t") auto
  with a json_loads_within [of "interp self" t e'] have "e' = JSONDecodeError" by blast
  with a e' show "load_data self =
      Inr (logging ERROR ''Error decoding JSON file. Starting fresh.'' []
             (assign_stock (PDict []) self))"
    by (simp add: load_data_opened)
qed

theorem load_data_recovers_witness:
  "open_read (files fresh) (file_path fresh) = Inl (OSError FileNotFoundError) \<and>
   map_sum fst stock_data (load_data fresh) = Inr (PDict []) \<and>
   map_sum fst log (load_data fresh) =
     Inr [(WARNING, ''File %s not found. Starting fresh.'', [Val (PStr (str ''inventory.json''))])] \<and>
   open_read (files (on_file (Text truncated))) (file_path (on_file (Text truncated))) =
     Inr truncated \<and>
   json_loads (interp (on_file (Text truncated))) truncated = Inl JSONDecodeError \<and>
   length truncated \<le> int_max_str_digits (interp (on_file (Text truncated))) \<and>
   length truncated \<le> json_depth (interp (on_file (Text truncated))) \<and>
   map_sum fst stock_data (load_data (on_file (Text truncated))) = Inr (PDict []) \<and>
   map_sum fst log (load_data (on_file (Text truncated))) =
     Inr [(ERROR, ''Error decoding JSON file. Starting fresh.'', [])] \<and>
   open_read (files (on_file (Text deep_array))) (file_path (on_file (Text deep_array))) =
     Inr deep_array \<and>
   json_loads (interp (on_file (Text deep_array))) deep_array = Inl RecursionError \<and>
   RecursionError \<noteq> JSONDecodeError \<and>
   load_data (on_file (Text deep_array)) = Inl (RecursionError, on_file (Text deep_array))"
proof -
  have a: "open_read (files fresh) (file_path fresh) = Inl (OSError FileNotFoundError)"
    by (simp add: fresh_def open_read_def path_error_inventory_json)
  have b: "open_read (files (on_file (Text truncated))) (file_path (on_file (Text truncated))) =
      Inr truncated"
    by (rule open_read_on_file)
  have c: "json_loads (interp (on_file (Text truncated))) truncated = Inl JSONDecodeError"
    by (simp add: on_file_fields truncated_def json_eval digits_ok_small del: Suc_numeral)
  from load_data_recovers [of fresh truncated JSONDecodeError] a
  have "load_data fresh =
      Inr (logging WARNING ''File %s not found. Starting fresh.'' [Val (PStr (file_path fresh))]
             (assign_stock (PDict []) fresh))"
    by blast
  moreover have w: "length truncated \<le> int_max_str_digits (interp (on_file (Text truncated)))"
    "length truncated \<le> json_depth (interp (on_file (Text truncated)))"
    by (simp_all add: on_file_fields truncated_def)
  moreover from c have "isl (json_loads (interp (on_file (Text truncated))) truncated)" by simp
  with load_data_recovers [of "on_file (Text truncated)" truncated JSONDecodeError] b w
  have "load_data (on_file (Text truncated)) =
      Inr (logging ERROR ''Error decoding JSON file. Starting fresh.'' []
             (assign_stock (PDict []) (on_file (Text truncated))))"
    by blast
  moreover have d: "open_read (files (on_file (Text deep_array)))
      (file_path (on_file (Text deep_array))) = Inr deep_array"
    by (rule open_read_on_file)
  moreover have e: "json_loads (interp (on_file (Text deep_array))) deep_array = Inl RecursionError"
    unfolding deep_array_def json_loads_brackets by (simp add: on_file_fields)
  moreover from load_data_recovers [of "on_file (Text deep_array)" deep_array RecursionError] d e
  have "load_data (on_file (Text deep_array)) = Inl (RecursionError, on_file (Text deep_array))"
    by simp
  ultimately show ?thesis
    using a b c by (simp add: on_file_fields) (simp add: fresh_def)
qed

text \<open>
  C7 as stated fails on a text that is not JSON and in which the decoder meets a number
  of 4301 digits, or its 991st nested array, before the place of the error: then
  \<^verbatim>\<open>json.load\<close> raises \<^verbatim>\<open>ValueError\<close> or \<^verbatim>\<open>RecursionError\<close>, which \<^verbatim>\<open>load_data\<close> does not
  catch. Both texts are rejected with \<^verbatim>\<open>JSONDecodeError\<close> by an interpreter without
  these limits. It also fails on a path with a NUL character, where no file exists and
  \<^verbatim>\<open>open\<close> raises \<^verbatim>\<open>ValueError\<close>.
\<close>

theorem load_data_raises_counterexample:
  "json_loads \<lparr>int_max_str_digits = 0, json_depth = 990\<rparr> (long_number @ [120]) =
     Inl JSONDecodeError \<and>
   load_data (on_file (Text (long_number @ [120]))) =
     Inl (ValueError, on_file (Text (long_number @ [120]))) \<and>
   json_loads \<lparr>int_max_str_digits = 4300, json_depth = 1000\<rparr> deep_array = Inl JSONDecodeError \<and>
   load_data (on_file (Text deep_array)) = Inl (RecursionError, on_file (Text deep_array)) \<and>
   files (fresh\<lparr>file_path := [0]\<rparr>) [0] = Absent \<and>
   load_data (fresh\<lparr>file_path := [0]\<rparr>) = Inl (ValueError, fresh\<lparr>file_path := [0]\<rparr>)"
proof -
  have rest: "[120] = [] \<or> (\<exists>c r. [120] = c # r \<and> \<not> is_digit c \<and> c \<noteq> 46 \<and> c \<noteq> 101 \<and> c \<noteq> 69)"
    by (simp add: is_digit_def)
  note num = json_loads_number [OF rest, of _ big, unfolded int_repr_big]
  have a: "json_loads \<lparr>int_max_str_digits = 0, json_depth = 990\<rparr> (long_number @ [120]) =
      Inl JSONDecodeError"
    by (simp add: num digits_ok_def is_ws_def)
  have "json_loads (interp (on_file (Text (long_number @ [120])))) (long_number @ [120]) =
      Inl ValueError"
    by (simp add: num on_file_fields big_over_limit)
  with load_data_opened [OF open_read_on_file [of "long_number @ [120]"]]
  have b: "load_data (on_file (Text (long_number @ [120]))) =
      Inl (ValueError, on_file (Text (long_number @ [120])))"
    by simp
  have c: "json_loads \<lparr>int_max_str_digits = 4300, json_depth = 1000\<rparr> deep_array =
      Inl JSONDecodeError"
    unfolding deep_array_def json_loads_brackets by simp
  have "json_loads (interp (on_file (Text deep_array))) deep_array = Inl RecursionError"
    unfolding deep_array_def json_loads_brackets by (simp add: on_file_fields)
  with load_data_opened [OF open_read_on_file [of deep_array]]
  have d: "load_data (on_file (Text deep_array)) = Inl (RecursionError, on_file (Text deep_array))"
    by simp
  have "open_read (files (fresh\<lparr>file_path := [0]\<rparr>)) (file_path (fresh\<lparr>file_path := [0]\<rparr>)) =
      Inl ValueError"
    by (simp add: open_read_def path_error_def)
  from load_data_not_opened [OF this]
  have e: "load_data (fresh\<lparr>file_path := [0]\<rparr>) = Inl (ValueError, fresh\<lparr>file_path := [0]\<rparr>)"
    by simp
  have f: "files (fresh\<lparr>file_path := [0]\<rparr>) [0] = Absent" by (simp add: fresh_def)
  from a b c d e f show ?thesis by simp
qed

text \<open>
  C8 does not hold of the code: \<^verbatim>\<open>load_data\<close> on a file that cannot be read raises
  \<^verbatim>\<open>PermissionError\<close> to its caller, where \<^verbatim>\<open>save_data\<close> catches every \<^verbatim>\<open>OSError\<close>.
\<close>

theorem load_data_permission_error:
  "load_data (fresh\<lparr>files := (\<lambda>_. Blocked PermissionError)\<rparr>) =
     Inl (OSError PermissionError, fresh\<lparr>files := (\<lambda>_. Blocked PermissionError)\<rparr>)"
proof -
  have "open_read (files (fresh\<lparr>files := (\<lambda>_. Blocked PermissionError)\<rparr>))
      (file_path (fresh\<lparr>files := (\<lambda>_. Blocked PermissionError)\<rparr>)) = Inl (OSError PermissionError)"
    by (simp add: fresh_def open_read_def path_error_inventory_json)
  from load_data_not_opened [OF this] show ?thesis by simp
qed

text \<open>
  C9 (as the code has it). However \<^verbatim>\<open>save_data\<close> ends, the store and the path of the object
  are the same afterwards. When \<^verbatim>\<open>open\<close> raises an \<^verbatim>\<open>OSError\<close>, \<^verbatim>\<open>save_data\<close> logs it and
  returns normally. An exception reaches the caller in two cases and no other: the
  path is one that \<^verbatim>\<open>open\<close> refuses before it asks the system (a NUL character, a
  surrogate that cannot be encoded), or the file was opened and a quantity has more
  digits than the interpreter converts. The exception is \<^verbatim>\<open>ValueError\<close> or
  \<^verbatim>\<open>UnicodeEncodeError\<close>, never an \<^verbatim>\<open>OSError\<close>.
\<close>

theorem save_data_frame:
  "stock_data (case_sum snd id (save_data self)) = stock_data self \<and>
   file_path (case_sum snd id (save_data self)) = file_path self \<and>
   (\<forall>error. path_error (file_path self) = None \<and> files self (file_path self) = Blocked error \<longrightarrow>
      save_data self =
        Inr (logging ERROR ''Error saving inventory data: %s'' [Exc error] self)) \<and>
   (isl (save_data self) \<longleftrightarrow>
      (\<exists>e. path_error (file_path self) = Some e) \<or>
      (\<forall>error. files self (file_path self) \<noteq> Blocked error) \<and>
      (\<exists>v \<in> snd ` set (stock_data self). \<not> digits_ok (int_max_str_digits (interp self)) v)) \<and>
   (\<forall>e left. save_data self = Inl (e, left) \<longrightarrow> e = ValueError \<or> e = UnicodeEncodeError)"
proof -
  let ?ok = "list_all (\<lambda>kv. digits_ok (int_max_str_digits (interp self)) (snd kv)) (stock_data self)"
  have ok: "?ok \<longleftrightarrow>
      \<not> (\<exists>v \<in> snd ` set (stock_data self). \<not> digits_ok (int_max_str_digits (interp self)) v)"
    by (auto simp: list_all_iff)
  show ?thesis
  proof (cases "path_error (file_path self)")
    case (Some e)
    with path_error_cases [of "file_path self"] show ?thesis
      by (auto simp: save_data_outcomes)
  next
    case None
    show ?thesis
    proof (cases "files self (file_path self)")
      case (Blocked error)
      with None show ?thesis by (simp add: save_data_outcomes)
    next
      case Absent
      with None ok show ?thesis by (cases ?ok) (simp_all add: save_data_outcomes)
    next
      case Undecodable
      with None ok show ?thesis by (cases ?ok) (simp_all add: save_data_outcomes)
    next
      case (Text t)
      with None ok show ?thesis by (cases ?ok) (simp_all add: save_data_outcomes)
    qed
  qed
qed

theorem save_data_frame_witness:
  "path_error (file_path (on_file (Blocked PermissionError))) = None \<and>
   files (on_file (Blocked PermissionError)) (file_path (on_file (Blocked PermissionError))) =
     Blocked PermissionError \<and>
   save_data (on_file (Blocked PermissionError)) =
     Inr (logging ERROR ''Error saving inventory data: %s'' [Exc PermissionError]
            (on_file (Blocked PermissionError))) \<and>
   stock_data (case_sum snd id (save_data two_items)) = stock_data two_items \<and>
   path_error (file_path big_stock) = None \<and>
   files big_stock (file_path big_stock) = Absent \<and>
   (\<exists>v \<in> snd ` set (stock_data big_stock).
      \<not> digits_ok (int_max_str_digits (interp big_stock)) v) \<and>
   isl (save_data big_stock)"
proof -
  have a: "path_error (file_path (on_file (Blocked PermissionError))) = None"
    by (simp add: on_file_fields path_error_inventory_json)
  have b: "files (on_file (Blocked PermissionError)) (file_path (on_file (Blocked PermissionError))) =
      Blocked PermissionError"
    by (simp add: on_file_fields)
  from save_data_frame [of "on_file (Blocked PermissionError)"] a b
  have c: "save_data (on_file (Blocked PermissionError)) =
     Inr (logging ERROR ''Error saving inventory data: %s'' [Exc PermissionError]
            (on_file (Blocked PermissionError)))"
    by blast
  from save_data_frame [of two_items]
  have d: "stock_data (case_sum snd id (save_data two_items)) = stock_data two_items"
    by (rule conjunct1)
  have fr: "files big_stock = files fresh" "file_path big_stock = file_path fresh"
    "interp big_stock = interp fresh"
    using do_call_frame [of "Add (PStr (str ''big'')) (PInt big)" fresh]
    by (simp_all add: big_stock_def)
  have p: "path_error (file_path big_stock) = None"
    by (simp add: fr) (simp add: fresh_def path_error_inventory_json)
  have f: "files big_stock (file_path big_stock) = Absent"
    by (simp add: fr) (simp add: fresh_def)
  have st: "stock_data big_stock = [(str ''big'', big)]"
    using big_nonneg by (simp add: big_stock_def add_item_stock fresh_def dict_get_def)
  have lim: "int_max_str_digits (interp big_stock) = 4300"
    by (simp add: fr) (simp add: fresh_def)
  have v: "\<exists>v \<in> snd ` set (stock_data big_stock).
      \<not> digits_ok (int_max_str_digits (interp big_stock)) v"
    by (simp add: st lim big_over_limit)
  from save_data_frame [of big_stock] f v have e: "isl (save_data big_stock)"
    by (simp only: node.distinct simp_thms not_False_eq_True)
  from a b c d p f v e show ?thesis by simp
qed

text \<open>
  C9 as stated fails on a store that is reached by \<^verbatim>\<open>add_item("big", 10 ** 4300)\<close>:
  \<^verbatim>\<open>json.dump\<close> raises \<^verbatim>\<open>ValueError\<close> when it converts the quantity, \<^verbatim>\<open>save_data\<close> does not
  catch it, and the file is left with the text written so far, which ends after
  \<^verbatim>\<open>"big": \<close>.
\<close>

theorem save_data_raises_counterexample:
  "stock_data big_stock = [(str ''big'', big)] \<and>
   files big_stock (file_path big_stock) = Absent \<and>
   save_data big_stock =
     Inl (ValueError,
          big_stock\<lparr>files := (files big_stock)
            (file_path big_stock := Text [123, 10, 32, 32, 32, 32, 34, 98, 105, 103, 34, 58, 32])\<rparr>)"
proof -
  have st: "stock_data big_stock = [(str ''big'', big)]"
    using big_nonneg by (simp add: big_stock_def add_item_stock fresh_def dict_get_def)
  have fr: "files big_stock = files fresh" "file_path big_stock = file_path fresh"
    "interp big_stock = interp fresh"
    using do_call_frame [of "Add (PStr (str ''big'')) (PInt big)" fresh]
    by (simp_all add: big_stock_def)
  have lim: "int_max_str_digits (interp big_stock) = 4300" by (simp add: fr) (simp add: fresh_def)
  have p: "path_error (file_path big_stock) = None"
    by (simp add: fr) (simp add: fresh_def path_error_inventory_json)
  have f: "files big_stock (file_path big_stock) = Absent" by (simp add: fr) (simp add: fresh_def)
  have cut: "fst (json_dump_text 4300 (stock_data big_stock)) =
      [123, 10, 32, 32, 32, 32, 34, 98, 105, 103, 34, 58, 32]"
    by (simp add: st json_dump_text_def big_over_limit newline_indent_eq
        encode_basestring_ascii_def encode_char_def str_def)
  have "\<not> list_all (\<lambda>kv. digits_ok 4300 (snd kv)) (stock_data big_stock)"
    by (simp add: st big_over_limit)
  with p f cut lim st have "save_data big_stock =
     Inl (ValueError,
          big_stock\<lparr>files := (files big_stock)
            (file_path big_stock := Text [123, 10, 32, 32, 32, 32, 34, 98, 105, 103, 34, 58, 32])\<rparr>)"
    by (simp add: save_data_outcomes)
  with st f show ?thesis by simp
qed

text \<open>
  C10 (as the code has it). Every outcome of \<^verbatim>\<open>load_data\<close>. When \<^verbatim>\<open>json.load\<close> returns a
  value, \<^verbatim>\<open>load_data\<close> makes it the store, whatever its shape: a list or a number as well
  as a dict. The store is reset to the empty dict when \<^verbatim>\<open>open\<close> raises
  \<^verbatim>\<open>FileNotFoundError\<close> and when \<^verbatim>\<open>json.load\<close> raises \<^verbatim>\<open>JSONDecodeError\<close>, and in no other
  case: any other exception of \<^verbatim>\<open>open\<close> or \<^verbatim>\<open>json.load\<close> reaches the caller, and the object
  is as it was.
\<close>

theorem load_data_installs_decoded:
  "load_data self =
     (case path_error (file_path self) of
        Some e \<Rightarrow> Inl (e, self)
      | None \<Rightarrow>
          (case files self (file_path self) of
             Absent \<Rightarrow>
               Inr (logging WARNING ''File %s not found. Starting fresh.''
                      [Val (PStr (file_path self))] (assign_stock (PDict []) self))
           | Blocked error \<Rightarrow>
               if error = FileNotFoundError
               then Inr (logging WARNING ''File %s not found. Starting fresh.''
                           [Val (PStr (file_path self))] (assign_stock (PDict []) self))
               else Inl (OSError error, self)
           | Undecodable \<Rightarrow> Inl (UnicodeDecodeError, self)
           | Text t \<Rightarrow>
               (case json_loads (interp self) t of
                  Inr v \<Rightarrow>
                    Inr (logging INFO ''Inventory data loaded successfully.'' []
                           (assign_stock v self))
                | Inl e \<Rightarrow>
                    if e = JSONDecodeError
                    then Inr (logging ERROR ''Error decoding JSON file. Starting fresh.'' []
                                (assign_stock (PDict []) self))
                    else Inl (e, self)))) \<and>
   (\<forall>t v. open_read (files self) (file_path self) = Inr t \<and> json_loads (interp self) t = Inr v \<longrightarrow>
      map_sum fst stock_data (load_data self) = Inr v)"
proof (intro conjI allI impI)
  show "load_data self =
     (case path_error (file_path self) of
        Some e \<Rightarrow> Inl (e, self)
      | None \<Rightarrow>
          (case files self (file_path self) of
             Absent \<Rightarrow>
               Inr (logging WARNING ''File %s not found. Starting fresh.''
                      [Val (PStr (file_path self))] (assign_stock (PDict []) self))
           | Blocked error \<Rightarrow>
               if error = FileNotFoundError
               then Inr (logging WARNING ''File %s not found. Starting fresh.''
                           [Val (PStr (file_path self))] (assign_stock (PDict []) self))
               else Inl (OSError error, self)
           | Undecodable \<Rightarrow> Inl (UnicodeDecodeError, self)
           | Text t \<Rightarrow>
               (case json_loads (interp self) t of
                  Inr v \<Rightarrow>
                    Inr (logging INFO ''Inventory data loaded successfully.'' []
                           (assign_stock v self))
                | Inl e \<Rightarrow>
                    if e = JSONDecodeError
                    then Inr (logging ERROR ''Error decoding JSON file. Starting fresh.'' []
                                (assign_stock (PDict []) self))
                    else Inl (e, self))))"
  proof (cases "open_read (files self) (file_path self)")
    case (Inl e)
    from load_data_not_opened [OF Inl] Inl path_error_cases [of "file_path self"] show ?thesis
      by (auto simp: open_read_def split: option.splits node.splits)
  next
    case (Inr t)
    from load_data_opened [OF Inr] Inr show ?thesis
      by (auto simp: open_read_def split: option.splits node.splits)
  qed
next
  fix t v
  assume "open_read (files self) (file_path self) = Inr t \<and> json_loads (interp self) t = Inr v"
  then show "map_sum fst stock_data (load_data self) = Inr v"
    by (simp add: load_data_opened)
qed

theorem load_data_installs_decoded_witness:
  "open_read (files (on_file (Text (str ''[1, 2]'')))) (file_path (on_file (Text (str ''[1, 2]'')))) =
     Inr (str ''[1, 2]'') \<and>
   json_loads (interp (on_file (Text (str ''[1, 2]'')))) (str ''[1, 2]'') =
     Inr (PList [PInt 1, PInt 2]) \<and>
   map_sum fst stock_data (load_data (on_file (Text (str ''[1, 2]'')))) =
     Inr (PList [PInt 1, PInt 2]) \<and>
   json_loads (interp (on_file (Text (str ''42'')))) (str ''42'') = Inr (PInt 42) \<and>
   map_sum fst stock_data (load_data (on_file (Text (str ''42'')))) = Inr (PInt 42)"
proof -
  have a: "json_loads (interp (on_file (Text (str ''[1, 2]'')))) (str ''[1, 2]'') =
      Inr (PList [PInt 1, PInt 2])"
    by (simp add: on_file_fields json_eval digits_ok_small del: Suc_numeral)
  have b: "json_loads (interp (on_file (Text (str ''42'')))) (str ''42'') = Inr (PInt 42)"
    by (simp add: on_file_fields json_eval digits_ok_small del: Suc_numeral)
  from load_data_installs_decoded [of "on_file (Text (str ''[1, 2]''))"]
    open_read_on_file [of "str ''[1, 2]''"] a
  have c: "map_sum fst stock_data (load_data (on_file (Text (str ''[1, 2]'')))) =
      Inr (PList [PInt 1, PInt 2])"
    by blast
  from load_data_installs_decoded [of "on_file (Text (str ''42''))"]
    open_read_on_file [of "str ''42''"] b
  have d: "map_sum fst stock_data (load_data (on_file (Text (str ''42'')))) = Inr (PInt 42)"
    by blast
  from open_read_on_file [of "str ''[1, 2]''"] a b c d show ?thesis by simp
qed

text \<open>
  C10 as stated fails on a file that holds a number of 4301 digits: the text is JSON,
  an interpreter without the limit on digits decodes it, and here \<^verbatim>\<open>json.load\<close> raises
  \<^verbatim>\<open>ValueError\<close>, so that \<^verbatim>\<open>load_data\<close> neither installs a value nor resets the store.
\<close>

theorem load_data_valid_json_counterexample:
  "json_loads \<lparr>int_max_str_digits = 0, json_depth = 990\<rparr> long_number = Inr (PInt big) \<and>
   load_data (on_file (Text long_number)) = Inl (ValueError, on_file (Text long_number))"
proof -
  note num = json_loads_number [of "[]" _ big, unfolded int_repr_big append_Nil2]
  have a: "json_loads \<lparr>int_max_str_digits = 0, json_depth = 990\<rparr> long_number = Inr (PInt big)"
    by (simp add: num digits_ok_def)
  have "json_loads (interp (on_file (Text long_number))) long_number = Inl ValueError"
    by (simp add: num on_file_fields big_over_limit)
  with load_data_opened [OF open_read_on_file [of long_number]]
  have "load_data (on_file (Text long_number)) = Inl (ValueError, on_file (Text long_number))"
    by simp
  with a show ?thesis by simp
qed

end
